theory Spec2Isabelle
  imports Main "HOL-Library.Sublist"
begin

section \<open>The parsed document tree\<close>

text \<open>
  The library reads trees built by the external HTML parser. A node carries its kind,
  its data (the tag name of an element, the characters of a text node), an ordered
  attribute list and its children. The parser links children through
  \<open>FirstChild\<close>/\<open>NextSibling\<close>; for a finite acyclic tree that chain is the list
  \<open>children\<close>, in document order. The traversals over the pointers themselves are
  modelled in a later section, where they are shown to return on every finite acyclic
  tree and to agree with the traversals over this tree.
\<close>

datatype NodeType =
  ErrorNode | TextNode | DocumentNode | ElementNode | CommentNode | DoctypeNode | RawNode

record Attribute =
  Namespace :: string
  Key :: string
  Val :: string

datatype Node = Node (Type: NodeType) (Data: string) (Attrs: "Attribute list") (children: "Node list")

record Selector =
  Id :: string
  ClassName :: string
  Tag :: string
  Recursive :: bool

text \<open>
  A reference into the tree is the list of child indices leading from the queried node
  to the referenced one; the empty path is the queried node itself. A possibly nil
  pointer is an optional path.
\<close>

type_synonym path = "nat list"

fun node_at :: "Node \<Rightarrow> path \<Rightarrow> Node option" where
  "node_at n [] = Some n"
| "node_at n (i # p) = (if i < length (children n) then node_at (children n ! i) p else None)"

text \<open>
  A Go slice value is either the nil slice or an allocated slice holding a sequence.
\<close>

datatype 'a slice = NilSlice | Slice "'a list"

fun elems :: "'a slice \<Rightarrow> 'a list" where
  "elems NilSlice = []"
| "elems (Slice xs) = xs"

section \<open>String functions of the standard library\<close>

text \<open>
  \<open>strings.Split(s, sep)\<close> for a separator of one byte: the pieces of \<open>s\<close> between
  the occurrences of the separator, so one piece more than there are separators; the
  empty string gives one empty piece.
\<close>

fun strings_Split :: "string \<Rightarrow> char \<Rightarrow> string list" where
  "strings_Split [] sep = [[]]"
| "strings_Split (c # cs) sep =
     (if c = sep then [] # strings_Split cs sep
      else (case strings_Split cs sep of
              [] \<Rightarrow> [[c]]
            | w # ws \<Rightarrow> (c # w) # ws))"

text \<open>
  \<open>strings.Trim(s, cutset)\<close> for a cutset of ASCII bytes: all leading and all trailing
  bytes of \<open>s\<close> that occur in the cutset are removed.
\<close>

definition strings_Trim :: "string \<Rightarrow> string \<Rightarrow> string" where
  "strings_Trim s cutset =
     rev (dropWhile (\<lambda>c. c \<in> set cutset) (rev (dropWhile (\<lambda>c. c \<in> set cutset) s)))"

section \<open>Attribute, class and text utilities\<close>

fun Attr_loop :: "Attribute list \<Rightarrow> string \<Rightarrow> string" where
  "Attr_loop [] attr = []"
| "Attr_loop (a # as) attr = (if Key a = attr then Val a else Attr_loop as attr)"

definition Attr :: "Node \<Rightarrow> string \<Rightarrow> string" where
  "Attr node attr = Attr_loop (Attrs node) attr"

fun HasClass_tokens :: "string list \<Rightarrow> string \<Rightarrow> bool" where
  "HasClass_tokens [] className = False"
| "HasClass_tokens (class # rest) className =
     (if class = className then True else HasClass_tokens rest className)"

fun HasClass_loop :: "Attribute list \<Rightarrow> string \<Rightarrow> bool" where
  "HasClass_loop [] className = False"
| "HasClass_loop (a # as) className =
     (if Key a = ''class'' then HasClass_tokens (strings_Split (Val a) (CHR '' '')) className
      else HasClass_loop as className)"

definition HasClass :: "Node \<Rightarrow> string \<Rightarrow> bool" where
  "HasClass node className = HasClass_loop (Attrs node) className"

text \<open>
  The two cutsets of \<open>TextContent\<close> as the source writes them: space, tab, newline,
  carriage return for the node itself, and space, tab, newline, newline for a child.
\<close>

definition cutset_self :: string where
  "cutset_self = [CHR '' '', CHR 0x09, CHR 0x0A, CHR 0x0D]"

definition cutset_child :: string where
  "cutset_child = [CHR '' '', CHR 0x09, CHR 0x0A, CHR 0x0A]"

fun TextContent_loop :: "Node list \<Rightarrow> string" where
  "TextContent_loop [] = []"
| "TextContent_loop (c # cs) =
     (if Type c = TextNode then strings_Trim (Data c) cutset_child else TextContent_loop cs)"

definition TextContent :: "Node \<Rightarrow> string" where
  "TextContent node =
     (if Type node = TextNode then strings_Trim (Data node) cutset_self
      else TextContent_loop (children node))"

section \<open>Traversals\<close>

subsection \<open>By id\<close>

fun firstWithId_scan :: "Node list \<Rightarrow> nat \<Rightarrow> string \<Rightarrow> path option" where
  "firstWithId_scan [] k id' = None"
| "firstWithId_scan (c # cs) k id' =
     (if Type c = ElementNode \<and> Attr c ''id'' = id' then Some [k]
      else firstWithId_scan cs (Suc k) id')"

fun firstWithId :: "Node \<Rightarrow> string \<Rightarrow> bool \<Rightarrow> path option"
  and firstWithId_descend :: "Node list \<Rightarrow> nat \<Rightarrow> string \<Rightarrow> path option" where
  "firstWithId (Node ty d as cs) id' recursive =
     (case firstWithId_scan cs 0 id' of
        Some c \<Rightarrow> Some c
      | None \<Rightarrow> if \<not> recursive then None else firstWithId_descend cs 0 id')"
| "firstWithId_descend [] k id' = None"
| "firstWithId_descend (c # cs) k id' =
     (if Type c = ElementNode then
        (case firstWithId c id' True of
           Some el \<Rightarrow> Some (k # el)
         | None \<Rightarrow> firstWithId_descend cs (Suc k) id')
      else firstWithId_descend cs (Suc k) id')"

definition FirstWithId :: "Node \<Rightarrow> string \<Rightarrow> path option" where
  "FirstWithId node id' = firstWithId node id' False"

definition FirstWithIdR :: "Node \<Rightarrow> string \<Rightarrow> path option" where
  "FirstWithIdR node id' = firstWithId node id' True"

subsection \<open>By class name\<close>

fun firstWithClassName_scan :: "Node list \<Rightarrow> nat \<Rightarrow> string \<Rightarrow> path option" where
  "firstWithClassName_scan [] k className = None"
| "firstWithClassName_scan (c # cs) k className =
     (if HasClass c className then Some [k]
      else firstWithClassName_scan cs (Suc k) className)"

fun firstWithClassName :: "Node \<Rightarrow> string \<Rightarrow> bool \<Rightarrow> path option"
  and firstWithClassName_descend :: "Node list \<Rightarrow> nat \<Rightarrow> string \<Rightarrow> path option" where
  "firstWithClassName (Node ty d as cs) className recursive =
     (case firstWithClassName_scan cs 0 className of
        Some c \<Rightarrow> Some c
      | None \<Rightarrow> if \<not> recursive then None else firstWithClassName_descend cs 0 className)"
| "firstWithClassName_descend [] k className = None"
| "firstWithClassName_descend (c # cs) k className =
     (case firstWithClassName c className True of
        Some n \<Rightarrow> Some (k # n)
      | None \<Rightarrow> firstWithClassName_descend cs (Suc k) className)"

definition FirstWithClassName :: "Node \<Rightarrow> string \<Rightarrow> path option" where
  "FirstWithClassName node className = firstWithClassName node className False"

definition FirstWithClassNameR :: "Node \<Rightarrow> string \<Rightarrow> path option" where
  "FirstWithClassNameR node className = firstWithClassName node className True"

fun allWithClassName :: "Node \<Rightarrow> string \<Rightarrow> bool \<Rightarrow> path list"
  and allWithClassName_loop :: "Node list \<Rightarrow> nat \<Rightarrow> string \<Rightarrow> path list" where
  "allWithClassName (Node ty d as cs) className recursive =
     (let res = (if HasClass (Node ty d as cs) className then [[]] else [])
      in if \<not> recursive then res else res @ allWithClassName_loop cs 0 className)"
| "allWithClassName_loop [] k className = []"
| "allWithClassName_loop (c # cs) k className =
     map ((#) k) (allWithClassName c className True) @ allWithClassName_loop cs (Suc k) className"

definition AllWithClassName :: "Node \<Rightarrow> string \<Rightarrow> path list" where
  "AllWithClassName node className = allWithClassName node className False"

definition AllWithClassNameR :: "Node \<Rightarrow> string \<Rightarrow> path list" where
  "AllWithClassNameR node className = allWithClassName node className True"

subsection \<open>By tag\<close>

fun firstWithTag_scan :: "Node list \<Rightarrow> nat \<Rightarrow> string \<Rightarrow> path option" where
  "firstWithTag_scan [] k tagName = None"
| "firstWithTag_scan (c # cs) k tagName =
     (if Type c = ElementNode \<and> Data c = tagName then Some [k]
      else firstWithTag_scan cs (Suc k) tagName)"

fun firstWithTag :: "Node \<Rightarrow> string \<Rightarrow> bool \<Rightarrow> path option"
  and firstWithTag_descend :: "Node list \<Rightarrow> nat \<Rightarrow> string \<Rightarrow> path option" where
  "firstWithTag (Node ty d as cs) tagName recursive =
     (case firstWithTag_scan cs 0 tagName of
        Some c \<Rightarrow> Some c
      | None \<Rightarrow> if \<not> recursive then None else firstWithTag_descend cs 0 tagName)"
| "firstWithTag_descend [] k tagName = None"
| "firstWithTag_descend (c # cs) k tagName =
     (case firstWithTag c tagName True of
        Some n \<Rightarrow> Some (k # n)
      | None \<Rightarrow> firstWithTag_descend cs (Suc k) tagName)"

definition FirstWithTag :: "Node \<Rightarrow> string \<Rightarrow> path option" where
  "FirstWithTag node tagName = firstWithTag node tagName False"

definition FirstWithTagR :: "Node \<Rightarrow> string \<Rightarrow> path option" where
  "FirstWithTagR node tagName = firstWithTag node tagName True"

fun allWithTag :: "Node \<Rightarrow> string \<Rightarrow> bool \<Rightarrow> path list"
  and allWithTag_loop :: "Node list \<Rightarrow> nat \<Rightarrow> string \<Rightarrow> bool \<Rightarrow> path list" where
  "allWithTag (Node ty d as cs) tagName recursive = allWithTag_loop cs 0 tagName recursive"
| "allWithTag_loop [] k tagName recursive = []"
| "allWithTag_loop (c # cs) k tagName recursive =
     (if Type c = ElementNode \<and> Data c = tagName then [[k]] else [])
     @ (if recursive then map ((#) k) (allWithTag c tagName True) else [])
     @ allWithTag_loop cs (Suc k) tagName recursive"

definition AllWithTag :: "Node \<Rightarrow> string \<Rightarrow> path list" where
  "AllWithTag node tagName = allWithTag node tagName False"

definition AllWithTagR :: "Node \<Rightarrow> string \<Rightarrow> path list" where
  "AllWithTagR node tagName = allWithTag node tagName True"

subsection \<open>Dispatch on the selector\<close>

definition SelectAll :: "Node \<Rightarrow> Selector \<Rightarrow> path option slice" where
  "SelectAll node selector =
     (if length (Id selector) > 0 then
        (let node' = firstWithId node (Id selector) (Recursive selector)
         in if node' = None then Slice [node'] else Slice [])
      else if length (ClassName selector) > 0 then
        Slice (map Some (allWithClassName node (ClassName selector) (Recursive selector)))
      else if length (Tag selector) > 0 then
        Slice (map Some (allWithTag node (Tag selector) (Recursive selector)))
      else NilSlice)"

definition SelectFirst :: "Node \<Rightarrow> Selector \<Rightarrow> path option" where
  "SelectFirst node selector =
     (if length (Id selector) > 0 then
        firstWithId node (Id selector) (Recursive selector)
      else if length (ClassName selector) > 0 then
        firstWithClassName node (ClassName selector) (Recursive selector)
      else if length (Tag selector) > 0 then
        firstWithTag node (Tag selector) (Recursive selector)
      else None)"


section \<open>Notions of the specification\<close>

text \<open>
  \<open>strings.Join\<close> for a separator of one byte: the inverse of \<open>strings_Split\<close>, used to
  state that splitting loses nothing.
\<close>

fun strings_Join :: "string list \<Rightarrow> char \<Rightarrow> string" where
  "strings_Join [] sep = []"
| "strings_Join [w] sep = w"
| "strings_Join (w # v # ws) sep = w @ sep # strings_Join (v # ws) sep"

text \<open>The node a path leads to exists and satisfies a property.\<close>

definition holds_at :: "Node \<Rightarrow> path \<Rightarrow> (Node \<Rightarrow> bool) \<Rightarrow> bool" where
  "holds_at n p P = (case node_at n p of None \<Rightarrow> False | Some c \<Rightarrow> P c)"

text \<open>
  An element whose id attribute is the target: the attribute lookup gives the value of
  the first entry keyed \<open>id\<close>, and the empty string when there is none.
\<close>

definition has_id :: "string \<Rightarrow> Node \<Rightarrow> bool" where
  "has_id i c = (Type c = ElementNode \<and> Attr c ''id'' = i)"

definition has_tag :: "string \<Rightarrow> Node \<Rightarrow> bool" where
  "has_tag t c = (Type c = ElementNode \<and> Data c = t)"

definition has_class :: "string \<Rightarrow> Node \<Rightarrow> bool" where
  "has_class c m = HasClass m c"

text \<open>
  The scope of a by-id search: the immediate children and, in recursive mode, the nodes
  below them that are reached through element nodes only. The queried node itself is
  never in scope.
\<close>

fun id_scope :: "Node \<Rightarrow> bool \<Rightarrow> path \<Rightarrow> bool" where
  "id_scope n r [] = False"
| "id_scope n r [k] = (k < length (children n))"
| "id_scope n r (k # b # q) =
     (r \<and> k < length (children n) \<and> Type (children n ! k) = ElementNode
        \<and> id_scope (children n ! k) True (b # q))"

definition id_match :: "Node \<Rightarrow> string \<Rightarrow> bool \<Rightarrow> path \<Rightarrow> bool" where
  "id_match n i r p = (id_scope n r p \<and> holds_at n p (has_id i))"

text \<open>
  The order in which the by-id search prefers nodes: an immediate child before any
  deeper node, immediate children by position, and two deeper nodes by the position of
  the child whose subtree holds them, then by the same order inside that child.
\<close>

fun search_le :: "path \<Rightarrow> path \<Rightarrow> bool" where
  "search_le [] q = True"
| "search_le (i # p) [] = False"
| "search_le [i] [j] = (i \<le> j)"
| "search_le [i] (j # b # q) = True"
| "search_le (i # a # p) [j] = False"
| "search_le (i # a # p) (j # b # q) = (i < j \<or> (i = j \<and> search_le (a # p) (b # q)))"

text \<open>
  Document order: a node first, then its children from first to last, each with its
  whole subtree before the next sibling.
\<close>

fun preorder :: "Node \<Rightarrow> path list"
  and preorder_list :: "Node list \<Rightarrow> nat \<Rightarrow> path list" where
  "preorder (Node ty d as cs) = [] # preorder_list cs 0"
| "preorder_list [] k = []"
| "preorder_list (c # cs) k = map ((#) k) (preorder c) @ preorder_list cs (Suc k)"

text \<open>
  Document order on paths is the lexicographic order: a node comes before everything
  below it, and everything below an earlier child before a later child.
\<close>

definition doc_less :: "path \<Rightarrow> path \<Rightarrow> bool" where
  "doc_less p q = ((p, q) \<in> lexord {(i, j). i < j})"

text \<open>
  A tree as the parser builds it below the queried node: only elements have children.
\<close>

fun parser_shaped :: "Node \<Rightarrow> bool"
  and parser_shaped_list :: "Node list \<Rightarrow> bool" where
  "parser_shaped (Node ty d as cs) = ((ty \<noteq> ElementNode \<longrightarrow> cs = []) \<and> parser_shaped_list cs)"
| "parser_shaped_list [] = True"
| "parser_shaped_list (c # cs) = (parser_shaped c \<and> parser_shaped_list cs)"

text \<open>The scopes of the by-class and by-tag collections.\<close>

definition class_scope :: "Node \<Rightarrow> bool \<Rightarrow> path list" where
  "class_scope n r = (if r then preorder n else [[]])"

definition tag_scope :: "Node \<Rightarrow> bool \<Rightarrow> path list" where
  "tag_scope n r = (if r then tl (preorder n) else map (\<lambda>k. [k]) [0..<length (children n)])"

text \<open>
  A tree in which two elements carry the id \<open>x\<close>: one three levels below the root,
  under the first child, and one two levels below the root, under the second child.
\<close>

definition id_example :: Node where
  "id_example =
     Node ElementNode ''div'' []
       [Node ElementNode ''div'' []
          [Node ElementNode ''div'' []
             [Node ElementNode ''span'' [\<lparr>Namespace = [], Key = ''id'', Val = ''x''\<rparr>] []]],
        Node ElementNode ''div'' [\<lparr>Namespace = [], Key = ''class'', Val = ''c''\<rparr>]
          [Node ElementNode ''span'' [\<lparr>Namespace = [], Key = ''id'', Val = ''x''\<rparr>] []]]"

section \<open>The traversals over the linked representation\<close>

text \<open>
  The parser's nodes are linked by pointers: \<open>FirstChild\<close> leads to the first child and
  \<open>NextSibling\<close> to the next child of the same parent. The loops of the source follow
  these pointers until they reach nil, and nothing in the source bounds them. Here the
  store maps every address to a node, a pointer is an optional address, and every
  function takes a step budget: the result \<open>None\<close> says that the budget ran out before
  the function returned, \<open>Some r\<close> that it returned \<open>r\<close>.
\<close>

type_synonym addr = nat

record html_Node =
  node_Type :: NodeType
  node_Data :: string
  node_Attr :: "Attribute list"
  FirstChild :: "addr option"
  NextSibling :: "addr option"

type_synonym heap = "addr \<Rightarrow> html_Node"

fun firstWithId_scan_p :: "nat \<Rightarrow> heap \<Rightarrow> addr option \<Rightarrow> string \<Rightarrow> addr option option" where
  "firstWithId_scan_p 0 h c id' = None"
| "firstWithId_scan_p (Suc f) h None id' = Some None"
| "firstWithId_scan_p (Suc f) h (Some c) id' =
     (if node_Type (h c) = ElementNode \<and> Attr_loop (node_Attr (h c)) ''id'' = id' then Some (Some c)
      else firstWithId_scan_p f h (NextSibling (h c)) id')"

fun firstWithId_p :: "nat \<Rightarrow> heap \<Rightarrow> addr \<Rightarrow> string \<Rightarrow> bool \<Rightarrow> addr option option"
  and firstWithId_descend_p :: "nat \<Rightarrow> heap \<Rightarrow> addr option \<Rightarrow> string \<Rightarrow> addr option option" where
  "firstWithId_p 0 h node id' recursive = None"
| "firstWithId_p (Suc f) h node id' recursive =
     (case firstWithId_scan_p f h (FirstChild (h node)) id' of
        None \<Rightarrow> None
      | Some (Some c) \<Rightarrow> Some (Some c)
      | Some None \<Rightarrow>
          if \<not> recursive then Some None
          else firstWithId_descend_p f h (FirstChild (h node)) id')"
| "firstWithId_descend_p 0 h c id' = None"
| "firstWithId_descend_p (Suc f) h None id' = Some None"
| "firstWithId_descend_p (Suc f) h (Some c) id' =
     (if node_Type (h c) = ElementNode then
        (case firstWithId_p f h c id' True of
           None \<Rightarrow> None
         | Some (Some el) \<Rightarrow> Some (Some el)
         | Some None \<Rightarrow> firstWithId_descend_p f h (NextSibling (h c)) id')
      else firstWithId_descend_p f h (NextSibling (h c)) id')"

fun firstWithClassName_scan_p ::
  "nat \<Rightarrow> heap \<Rightarrow> addr option \<Rightarrow> string \<Rightarrow> addr option option" where
  "firstWithClassName_scan_p 0 h c className = None"
| "firstWithClassName_scan_p (Suc f) h None className = Some None"
| "firstWithClassName_scan_p (Suc f) h (Some c) className =
     (if HasClass_loop (node_Attr (h c)) className then Some (Some c)
      else firstWithClassName_scan_p f h (NextSibling (h c)) className)"

fun firstWithClassName_p :: "nat \<Rightarrow> heap \<Rightarrow> addr \<Rightarrow> string \<Rightarrow> bool \<Rightarrow> addr option option"
  and firstWithClassName_descend_p ::
    "nat \<Rightarrow> heap \<Rightarrow> addr option \<Rightarrow> string \<Rightarrow> addr option option" where
  "firstWithClassName_p 0 h node className recursive = None"
| "firstWithClassName_p (Suc f) h node className recursive =
     (case firstWithClassName_scan_p f h (FirstChild (h node)) className of
        None \<Rightarrow> None
      | Some (Some c) \<Rightarrow> Some (Some c)
      | Some None \<Rightarrow>
          if \<not> recursive then Some None
          else firstWithClassName_descend_p f h (FirstChild (h node)) className)"
| "firstWithClassName_descend_p 0 h c className = None"
| "firstWithClassName_descend_p (Suc f) h None className = Some None"
| "firstWithClassName_descend_p (Suc f) h (Some c) className =
     (case firstWithClassName_p f h c className True of
        None \<Rightarrow> None
      | Some (Some n) \<Rightarrow> Some (Some n)
      | Some None \<Rightarrow> firstWithClassName_descend_p f h (NextSibling (h c)) className)"

fun allWithClassName_p :: "nat \<Rightarrow> heap \<Rightarrow> addr \<Rightarrow> string \<Rightarrow> bool \<Rightarrow> addr list option"
  and allWithClassName_loop_p ::
    "nat \<Rightarrow> heap \<Rightarrow> addr option \<Rightarrow> string \<Rightarrow> addr list \<Rightarrow> addr list option" where
  "allWithClassName_p 0 h node className recursive = None"
| "allWithClassName_p (Suc f) h node className recursive =
     (let res = (if HasClass_loop (node_Attr (h node)) className then [node] else [])
      in if \<not> recursive then Some res
         else allWithClassName_loop_p f h (FirstChild (h node)) className res)"
| "allWithClassName_loop_p 0 h c className res = None"
| "allWithClassName_loop_p (Suc f) h None className res = Some res"
| "allWithClassName_loop_p (Suc f) h (Some c) className res =
     (case allWithClassName_p f h c className True of
        None \<Rightarrow> None
      | Some sub \<Rightarrow> allWithClassName_loop_p f h (NextSibling (h c)) className (res @ sub))"

fun firstWithTag_scan_p :: "nat \<Rightarrow> heap \<Rightarrow> addr option \<Rightarrow> string \<Rightarrow> addr option option" where
  "firstWithTag_scan_p 0 h c tagName = None"
| "firstWithTag_scan_p (Suc f) h None tagName = Some None"
| "firstWithTag_scan_p (Suc f) h (Some c) tagName =
     (if node_Type (h c) = ElementNode \<and> node_Data (h c) = tagName then Some (Some c)
      else firstWithTag_scan_p f h (NextSibling (h c)) tagName)"

fun firstWithTag_p :: "nat \<Rightarrow> heap \<Rightarrow> addr \<Rightarrow> string \<Rightarrow> bool \<Rightarrow> addr option option"
  and firstWithTag_descend_p :: "nat \<Rightarrow> heap \<Rightarrow> addr option \<Rightarrow> string \<Rightarrow> addr option option" where
  "firstWithTag_p 0 h node tagName recursive = None"
| "firstWithTag_p (Suc f) h node tagName recursive =
     (case firstWithTag_scan_p f h (FirstChild (h node)) tagName of
        None \<Rightarrow> None
      | Some (Some c) \<Rightarrow> Some (Some c)
      | Some None \<Rightarrow>
          if \<not> recursive then Some None
          else firstWithTag_descend_p f h (FirstChild (h node)) tagName)"
| "firstWithTag_descend_p 0 h c tagName = None"
| "firstWithTag_descend_p (Suc f) h None tagName = Some None"
| "firstWithTag_descend_p (Suc f) h (Some c) tagName =
     (case firstWithTag_p f h c tagName True of
        None \<Rightarrow> None
      | Some (Some n) \<Rightarrow> Some (Some n)
      | Some None \<Rightarrow> firstWithTag_descend_p f h (NextSibling (h c)) tagName)"

fun allWithTag_p :: "nat \<Rightarrow> heap \<Rightarrow> addr \<Rightarrow> string \<Rightarrow> bool \<Rightarrow> addr list option"
  and allWithTag_loop_p ::
    "nat \<Rightarrow> heap \<Rightarrow> addr option \<Rightarrow> string \<Rightarrow> bool \<Rightarrow> addr list \<Rightarrow> addr list option" where
  "allWithTag_p 0 h node tagName recursive = None"
| "allWithTag_p (Suc f) h node tagName recursive =
     allWithTag_loop_p f h (FirstChild (h node)) tagName recursive []"
| "allWithTag_loop_p 0 h c tagName recursive res = None"
| "allWithTag_loop_p (Suc f) h None tagName recursive res = Some res"
| "allWithTag_loop_p (Suc f) h (Some c) tagName recursive res =
     (let res' = (if node_Type (h c) = ElementNode \<and> node_Data (h c) = tagName
                  then res @ [c] else res)
      in if recursive then
           (case allWithTag_p f h c tagName True of
              None \<Rightarrow> None
            | Some sub \<Rightarrow> allWithTag_loop_p f h (NextSibling (h c)) tagName recursive (res' @ sub))
         else allWithTag_loop_p f h (NextSibling (h c)) tagName recursive res')"

definition SelectAll_p :: "nat \<Rightarrow> heap \<Rightarrow> addr \<Rightarrow> Selector \<Rightarrow> addr option slice option" where
  "SelectAll_p f h node selector =
     (if length (Id selector) > 0 then
        (case firstWithId_p f h node (Id selector) (Recursive selector) of
           None \<Rightarrow> None
         | Some node' \<Rightarrow> if node' = None then Some (Slice [node']) else Some (Slice []))
      else if length (ClassName selector) > 0 then
        map_option (\<lambda>res. Slice (map Some res))
          (allWithClassName_p f h node (ClassName selector) (Recursive selector))
      else if length (Tag selector) > 0 then
        map_option (\<lambda>res. Slice (map Some res))
          (allWithTag_p f h node (Tag selector) (Recursive selector))
      else Some NilSlice)"

definition SelectFirst_p :: "nat \<Rightarrow> heap \<Rightarrow> addr \<Rightarrow> Selector \<Rightarrow> addr option option" where
  "SelectFirst_p f h node selector =
     (if length (Id selector) > 0 then
        firstWithId_p f h node (Id selector) (Recursive selector)
      else if length (ClassName selector) > 0 then
        firstWithClassName_p f h node (ClassName selector) (Recursive selector)
      else if length (Tag selector) > 0 then
        firstWithTag_p f h node (Tag selector) (Recursive selector)
      else Some None)"

text \<open>
  The linked structure below an address is a finite acyclic tree when it unfolds to a
  tree value: the node at the address has the tree's kind, data and attributes, and the
  chain from its \<open>FirstChild\<close> along \<open>NextSibling\<close> ends in nil and carries the
  tree's children in order.
\<close>

fun tree_at :: "heap \<Rightarrow> addr \<Rightarrow> Node \<Rightarrow> bool"
  and forest_at :: "heap \<Rightarrow> addr option \<Rightarrow> Node list \<Rightarrow> bool" where
  "tree_at h a (Node ty d as cs) =
     (node_Type (h a) = ty \<and> node_Data (h a) = d \<and> node_Attr (h a) = as
        \<and> forest_at h (FirstChild (h a)) cs)"
| "forest_at h None [] = True"
| "forest_at h None (c # cs) = False"
| "forest_at h (Some a) [] = False"
| "forest_at h (Some a) (c # cs) = (tree_at h a c \<and> forest_at h (NextSibling (h a)) cs)"

text \<open>A step budget that suffices for a tree: one step per node and per end of a chain.\<close>

fun fuel_for :: "Node \<Rightarrow> nat"
  and fuel_for_list :: "Node list \<Rightarrow> nat" where
  "fuel_for (Node ty d as cs) = Suc (fuel_for_list cs)"
| "fuel_for_list [] = Suc 0"
| "fuel_for_list (c # cs) = Suc (fuel_for c + fuel_for_list cs)"

text \<open>
  A store holding the tree \<open>linked_example_tree\<close> at address 0, and a store in which
  every node is its own first child.
\<close>

definition linked_example :: heap where
  "linked_example a =
     (if a = 0 then
        \<lparr>node_Type = ElementNode, node_Data = ''div'', node_Attr = [],
         FirstChild = Some 1, NextSibling = None\<rparr>
      else if a = 1 then
        \<lparr>node_Type = ElementNode, node_Data = ''p'',
         node_Attr = [\<lparr>Namespace = [], Key = ''id'', Val = ''x''\<rparr>],
         FirstChild = Some 3, NextSibling = Some 2\<rparr>
      else if a = 2 then
        \<lparr>node_Type = TextNode, node_Data = ''hi'', node_Attr = [],
         FirstChild = None, NextSibling = None\<rparr>
      else
        \<lparr>node_Type = ElementNode, node_Data = ''span'',
         node_Attr = [\<lparr>Namespace = [], Key = ''class'', Val = ''c''\<rparr>],
         FirstChild = None, NextSibling = None\<rparr>)"

definition linked_example_tree :: Node where
  "linked_example_tree =
     Node ElementNode ''div'' []
       [Node ElementNode ''p'' [\<lparr>Namespace = [], Key = ''id'', Val = ''x''\<rparr>]
          [Node ElementNode ''span'' [\<lparr>Namespace = [], Key = ''class'', Val = ''c''\<rparr>] []],
        Node TextNode ''hi'' [] []]"

definition cyclic_heap :: heap where
  "cyclic_heap a =
     \<lparr>node_Type = ElementNode, node_Data = ''div'', node_Attr = [],
      FirstChild = Some a, NextSibling = None\<rparr>"

text \<open>
  The address a path leads to in the linked structure: the \<open>k\<close>-th node of a sibling
  chain, the node a path from an address leads to, and the node a path leads to when
  its first index counts the siblings from a cursor that stands at index \<open>k\<close>.
\<close>

fun nth_sibling :: "heap \<Rightarrow> addr option \<Rightarrow> nat \<Rightarrow> addr option" where
  "nth_sibling h None k = None"
| "nth_sibling h (Some a) 0 = Some a"
| "nth_sibling h (Some a) (Suc k) = nth_sibling h (NextSibling (h a)) k"

fun addr_at :: "heap \<Rightarrow> addr \<Rightarrow> path \<Rightarrow> addr option" where
  "addr_at h a [] = Some a"
| "addr_at h a (k # p) =
     (case nth_sibling h (FirstChild (h a)) k of
        None \<Rightarrow> None
      | Some c \<Rightarrow> addr_at h c p)"

definition addr_from :: "heap \<Rightarrow> addr option \<Rightarrow> nat \<Rightarrow> path \<Rightarrow> addr option" where
  "addr_from h c k p =
     (case p of
        [] \<Rightarrow> None
      | i # q \<Rightarrow>
          if i < k then None
          else (case nth_sibling h c (i - k) of
                  None \<Rightarrow> None
                | Some x \<Rightarrow> addr_at h x q))"

text \<open>
  A run over the linked structure agrees with a result over the tree: it returns, and
  what it returns are the addresses of the paths of the tree result (nil for nil).
\<close>

definition opt_refines ::
  "addr option option \<Rightarrow> (path \<Rightarrow> addr option) \<Rightarrow> path option \<Rightarrow> bool" where
  "opt_refines res ad r =
     (case res of None \<Rightarrow> False | Some x \<Rightarrow> map_option Some x = map_option ad r)"

definition list_refines ::
  "addr list option \<Rightarrow> (path \<Rightarrow> addr option) \<Rightarrow> path list \<Rightarrow> bool" where
  "list_refines res ad ps =
     (case res of None \<Rightarrow> False | Some xs \<Rightarrow> map Some xs = map ad ps)"

definition slice_refines ::
  "addr option slice option \<Rightarrow> (path \<Rightarrow> addr option) \<Rightarrow> path option slice \<Rightarrow> bool" where
  "slice_refines res ad sl =
     (case res of
        None \<Rightarrow> False
      | Some xs \<Rightarrow>
          (xs = NilSlice \<longleftrightarrow> sl = NilSlice)
          \<and> map (map_option Some) (elems xs) = map (map_option ad) (elems sl))"

section \<open>Splitting, trimming and class membership\<close>

lemma strings_Split_not_Nil: "strings_Split s sep \<noteq> []"
  by (induction s) (auto split: list.splits)

lemma strings_Split_no_sep: "w \<in> set (strings_Split s sep) \<Longrightarrow> sep \<notin> set w"
proof (induction s arbitrary: w)
  case Nil
  then show ?case by simp
next
  case (Cons c cs)
  show ?case
  proof (cases "c = sep")
    case True
    with Cons show ?thesis by auto
  next
    case False
    obtain v vs where vs: "strings_Split cs sep = v # vs"
      using strings_Split_not_Nil [of cs sep] by (cases "strings_Split cs sep") auto
    with Cons.prems False have "w = c # v \<or> w \<in> set vs" by simp
    then show ?thesis
    proof
      assume "w = c # v"
      moreover have "sep \<notin> set v" using Cons.IH [of v] vs by simp
      ultimately show ?thesis using False by auto
    next
      assume "w \<in> set vs"
      then show ?thesis using Cons.IH [of w] vs by simp
    qed
  qed
qed

lemma strings_Join_Split: "strings_Join (strings_Split s sep) sep = s"
proof (induction s)
  case Nil
  then show ?case by simp
next
  case (Cons c cs)
  obtain v vs where vs: "strings_Split cs sep = v # vs"
    using strings_Split_not_Nil [of cs sep] by (cases "strings_Split cs sep") auto
  show ?case
  proof (cases "c = sep")
    case True
    with Cons vs show ?thesis by simp
  next
    case False
    with Cons vs show ?thesis by (cases vs) auto
  qed
qed

lemma length_strings_Split: "length (strings_Split s sep) = Suc (count_list s sep)"
  by (induction s) (auto split: list.splits simp: strings_Split_not_Nil)

lemma hd_strings_Split_Nil: "hd (strings_Split s sep) = [] \<longleftrightarrow> s = [] \<or> hd s = sep"
  by (cases s) (auto split: list.splits)

lemma Nil_in_tl_strings_Split:
  "[] \<in> set (tl (strings_Split s sep)) \<longleftrightarrow> suffix [sep] s \<or> sublist [sep, sep] s"
proof (induction s)
  case Nil
  then show ?case by simp
next
  case (Cons c cs)
  obtain v vs where vs: "strings_Split cs sep = v # vs"
    using strings_Split_not_Nil [of cs sep] by (cases "strings_Split cs sep") auto
  show ?case
  proof (cases "c = sep")
    case True
    have "[] \<in> set (tl (strings_Split (c # cs) sep)) \<longleftrightarrow>
          hd (strings_Split cs sep) = [] \<or> [] \<in> set (tl (strings_Split cs sep))"
      using True vs by auto
    also have "\<dots> \<longleftrightarrow> (cs = [] \<or> hd cs = sep) \<or> suffix [sep] cs \<or> sublist [sep, sep] cs"
      using Cons.IH by (simp add: hd_strings_Split_Nil)
    also have "\<dots> \<longleftrightarrow> suffix [sep] (c # cs) \<or> sublist [sep, sep] (c # cs)"
      using True by (cases cs) (auto simp: suffix_Cons sublist_Cons_right)
    finally show ?thesis .
  next
    case False
    have "[] \<in> set (tl (strings_Split (c # cs) sep)) \<longleftrightarrow> [] \<in> set (tl (strings_Split cs sep))"
      using False vs by simp
    also have "\<dots> \<longleftrightarrow> suffix [sep] cs \<or> sublist [sep, sep] cs"
      using Cons.IH .
    also have "\<dots> \<longleftrightarrow> suffix [sep] (c # cs) \<or> sublist [sep, sep] (c # cs)"
      using False by (auto simp: suffix_Cons sublist_Cons_right)
    finally show ?thesis .
  qed
qed

lemma Nil_in_strings_Split:
  "[] \<in> set (strings_Split s sep) \<longleftrightarrow>
     s = [] \<or> prefix [sep] s \<or> suffix [sep] s \<or> sublist [sep, sep] s"
proof -
  obtain v vs where vs: "strings_Split s sep = v # vs"
    using strings_Split_not_Nil [of s sep] by (cases "strings_Split s sep") auto
  have "[] \<in> set (strings_Split s sep) \<longleftrightarrow>
        hd (strings_Split s sep) = [] \<or> [] \<in> set (tl (strings_Split s sep))"
    using vs by auto
  also have "\<dots> \<longleftrightarrow> (s = [] \<or> hd s = sep) \<or> suffix [sep] s \<or> sublist [sep, sep] s"
    by (simp add: hd_strings_Split_Nil Nil_in_tl_strings_Split)
  also have "\<dots> \<longleftrightarrow> s = [] \<or> prefix [sep] s \<or> suffix [sep] s \<or> sublist [sep, sep] s"
    by (cases s) auto
  finally show ?thesis .
qed

lemma strings_Trim_cong: "set cutset = set cutset' \<Longrightarrow> strings_Trim s cutset = strings_Trim s cutset'"
  by (simp add: strings_Trim_def)

lemma strings_Trim_agree:
  assumes "\<And>x. x \<in> set s \<Longrightarrow> (x \<in> set cs) = (x \<in> set cs')"
  shows "strings_Trim s cs = strings_Trim s cs'"
proof -
  have 1: "dropWhile (\<lambda>c. c \<in> set cs) s = dropWhile (\<lambda>c. c \<in> set cs') s"
    using assms by (intro dropWhile_cong) auto
  have "\<And>x. x \<in> set (rev (dropWhile (\<lambda>c. c \<in> set cs') s)) \<Longrightarrow> x \<in> set s"
    by (auto dest: set_dropWhileD)
  then have 2: "dropWhile (\<lambda>c. c \<in> set cs) (rev (dropWhile (\<lambda>c. c \<in> set cs') s))
      = dropWhile (\<lambda>c. c \<in> set cs') (rev (dropWhile (\<lambda>c. c \<in> set cs') s))"
    using assms by (intro dropWhile_cong) auto
  show ?thesis by (simp add: strings_Trim_def 1 2)
qed

lemma strings_Trim_cutset_child:
  "CHR 0x0D \<notin> set s \<Longrightarrow> strings_Trim s cutset_child = strings_Trim s cutset_self"
  using strings_Trim_agree [of s cutset_child cutset_self]
  by (auto simp: cutset_child_def cutset_self_def)

lemma HasClass_tokens_iff: "HasClass_tokens ts className \<longleftrightarrow> className \<in> set ts"
  by (induction ts) auto

lemma Attr_loop_find:
  "Attr_loop as attr = (case find (\<lambda>a. Key a = attr) as of None \<Rightarrow> [] | Some a \<Rightarrow> Val a)"
  by (induction as) auto

lemma HasClass_loop_find:
  "HasClass_loop as className =
     (case find (\<lambda>a. Key a = ''class'') as of
        None \<Rightarrow> False
      | Some a \<Rightarrow> className \<in> set (strings_Split (Val a) (CHR '' '')))"
  by (induction as) (auto simp: HasClass_tokens_iff)

text \<open>
  C6. \<open>HasClass n c\<close> holds iff the node has an attribute keyed \<open>class\<close> and the
  value of the first such attribute, split at every single space, has a piece equal to
  \<open>c\<close>. The pieces are compared whole and byte for byte, so \<open>ab\<close> does not
  contain the class \<open>a\<close>, and a second \<open>class\<close> attribute is never consulted.
\<close>

theorem HasClass_iff:
  "HasClass n c \<longleftrightarrow>
     (\<exists>a. find (\<lambda>a. Key a = ''class'') (Attrs n) = Some a
          \<and> c \<in> set (strings_Split (Val a) (CHR '' '')))"
  by (simp add: HasClass_def HasClass_loop_find split: option.splits)

theorem HasClass_iff_witness:
  "\<not> HasClass (Node ElementNode ''p'' [\<lparr>Namespace = [], Key = ''class'', Val = ''ab''\<rparr>] []) ''a''
   \<and> HasClass (Node ElementNode ''p''
        [\<lparr>Namespace = [], Key = ''id'', Val = ''b''\<rparr>,
         \<lparr>Namespace = [], Key = ''class'', Val = ''a b''\<rparr>,
         \<lparr>Namespace = [], Key = ''class'', Val = ''c''\<rparr>] []) ''b''
   \<and> \<not> HasClass (Node ElementNode ''p''
        [\<lparr>Namespace = [], Key = ''class'', Val = ''a b''\<rparr>,
         \<lparr>Namespace = [], Key = ''class'', Val = ''c''\<rparr>] []) ''c''"
  using
    HasClass_iff [of "Node ElementNode ''p'' [\<lparr>Namespace = [], Key = ''class'', Val = ''ab''\<rparr>] []" "''a''"]
    HasClass_iff [of "Node ElementNode ''p''
        [\<lparr>Namespace = [], Key = ''id'', Val = ''b''\<rparr>,
         \<lparr>Namespace = [], Key = ''class'', Val = ''a b''\<rparr>,
         \<lparr>Namespace = [], Key = ''class'', Val = ''c''\<rparr>] []" "''b''"]
    HasClass_iff [of "Node ElementNode ''p''
        [\<lparr>Namespace = [], Key = ''class'', Val = ''a b''\<rparr>,
         \<lparr>Namespace = [], Key = ''class'', Val = ''c''\<rparr>] []" "''c''"]
  by simp

text \<open>
  C10. For the empty class name: a node without a \<open>class\<close> attribute does not have
  it; a node with one has it iff the value of the first \<open>class\<close> attribute is empty,
  begins with a space, ends with a space, or contains two spaces in a row.
\<close>

theorem HasClass_empty_iff:
  "(find (\<lambda>a. Key a = ''class'') (Attrs n) = None \<longrightarrow> \<not> HasClass n [])
   \<and> (\<forall>a. find (\<lambda>a. Key a = ''class'') (Attrs n) = Some a \<longrightarrow>
         (HasClass n [] \<longleftrightarrow>
            Val a = [] \<or> prefix '' '' (Val a) \<or> suffix '' '' (Val a) \<or> sublist ''  '' (Val a)))"
  by (simp add: HasClass_def HasClass_loop_find Nil_in_strings_Split)

theorem HasClass_empty_iff_witness:
  "\<not> HasClass (Node ElementNode ''p'' [\<lparr>Namespace = [], Key = ''id'', Val = []\<rparr>] []) []
   \<and> HasClass (Node ElementNode ''p'' [\<lparr>Namespace = [], Key = ''class'', Val = ''a  b''\<rparr>] []) []
   \<and> \<not> HasClass (Node ElementNode ''p'' [\<lparr>Namespace = [], Key = ''class'', Val = ''a b''\<rparr>] []) []"
  using
    HasClass_empty_iff [of "Node ElementNode ''p'' [\<lparr>Namespace = [], Key = ''id'', Val = []\<rparr>] []"]
    HasClass_empty_iff [of "Node ElementNode ''p'' [\<lparr>Namespace = [], Key = ''class'', Val = ''a  b''\<rparr>] []"]
    HasClass_empty_iff [of "Node ElementNode ''p'' [\<lparr>Namespace = [], Key = ''class'', Val = ''a b''\<rparr>] []"]
  by (simp add: sublist_Cons_right suffix_Cons)

section \<open>Text content\<close>

text \<open>
  C4, as the specification states it: an element whose first child is an element and
  whose second child is a text node has the empty text content. The loop over the
  children skips the first child and returns the text of the second.
\<close>

theorem TextContent_second_child_counterexample:
  "TextContent (Node ElementNode ''p'' []
      [Node ElementNode ''b'' [] [], Node TextNode ''hi'' [] []]) = ''hi''"
  by (simp add: TextContent_def strings_Trim_def cutset_child_def)

text \<open>
  C4, amended: for an element whose first child is an element and whose second child
  is a text node, \<open>TextContent\<close> returns the data of the second child trimmed of
  leading and trailing whitespace. This is stated for data without carriage returns;
  what happens to a carriage return at an end of a child's text is the subject of C5.
\<close>

theorem TextContent_second_child:
  "Type n = ElementNode \<Longrightarrow> children n = c1 # c2 # rest \<Longrightarrow> Type c1 = ElementNode \<Longrightarrow>
   Type c2 = TextNode \<Longrightarrow> CHR 0x0D \<notin> set (Data c2) \<Longrightarrow>
   TextContent n = strings_Trim (Data c2) [CHR '' '', CHR 0x09, CHR 0x0A, CHR 0x0D]"
  using strings_Trim_cutset_child [of "Data c2"]
  by (simp add: TextContent_def cutset_self_def)

theorem TextContent_second_child_witness:
  "TextContent (Node ElementNode ''p'' []
      [Node ElementNode ''b'' [] [], Node TextNode ('' hi'' @ [CHR 0x0A]) [] []]) = ''hi''"
  using TextContent_second_child [of "Node ElementNode ''p'' []
      [Node ElementNode ''b'' [] [], Node TextNode ('' hi'' @ [CHR 0x0A]) [] []]"
      "Node ElementNode ''b'' [] []" "Node TextNode ('' hi'' @ [CHR 0x0A]) [] []" "[]"]
  by (simp add: strings_Trim_def)

text \<open>
  C5. The claim: the text of the first text child is trimmed of the same four
  characters as the text of a text node itself. The cutset used for a child repeats
  the newline where the cutset for the node itself has the carriage return, so a
  child's text keeps a trailing carriage return that the same text loses when
  \<open>TextContent\<close> is applied to the text node directly.
\<close>

theorem TextContent_child_keeps_carriage_return:
  "TextContent (Node ElementNode ''p'' [] [Node TextNode [CHR ''H'', CHR ''i'', CHR 0x0D] [] []])
     = [CHR ''H'', CHR ''i'', CHR 0x0D]
   \<and> strings_Trim [CHR ''H'', CHR ''i'', CHR 0x0D] [CHR '' '', CHR 0x09, CHR 0x0A, CHR 0x0D] = ''Hi''
   \<and> TextContent (Node TextNode [CHR ''H'', CHR ''i'', CHR 0x0D] [] []) = ''Hi''"
  by (simp add: TextContent_def strings_Trim_def cutset_child_def cutset_self_def)

lemma TextContent_text_node:
  "Type n = TextNode \<Longrightarrow>
   TextContent n = strings_Trim (Data n) [CHR '' '', CHR 0x09, CHR 0x0A, CHR 0x0D]"
  by (simp add: TextContent_def cutset_self_def)

lemma TextContent_loop_find:
  "TextContent_loop cs =
     (case find (\<lambda>c. Type c = TextNode) cs of
        None \<Rightarrow> []
      | Some c \<Rightarrow> strings_Trim (Data c) [CHR '' '', CHR 0x09, CHR 0x0A])"
  by (induction cs) (auto simp: cutset_child_def strings_Trim_def)


section \<open>Paths and scopes\<close>

lemma path_cases [case_names Nil Single Deep]:
  obtains (Nil) "q = []" | (Single) k where "q = [k]" | (Deep) k b q' where "q = k # b # q'"
proof (cases q)
  case Nil
  then show ?thesis using that(1) by simp
next
  case (Cons k t)
  show ?thesis
  proof (cases t)
    case Nil
    with \<open>q = k # t\<close> show ?thesis using that(2) by simp
  next
    case (Cons b q')
    with \<open>q = k # t\<close> show ?thesis using that(3) by simp
  qed
qed

lemma holds_at_Nil [simp]: "holds_at n [] P = P n"
  by (simp add: holds_at_def)

lemma holds_at_Cons:
  "holds_at (Node ty d as cs) (k # q) P = (k < length cs \<and> holds_at (cs ! k) q P)"
  by (simp add: holds_at_def)

lemma id_match_Nil: "\<not> id_match n i r []"
  by (simp add: id_match_def)

lemma id_match_single:
  "id_match (Node ty d as cs) i r [k] \<longleftrightarrow> k < length cs \<and> has_id i (cs ! k)"
  by (auto simp: id_match_def holds_at_def)

lemma id_match_deep:
  "id_match (Node ty d as cs) i r (k # b # q) \<longleftrightarrow>
     r \<and> k < length cs \<and> Type (cs ! k) = ElementNode \<and> id_match (cs ! k) i True (b # q)"
  by (auto simp: id_match_def holds_at_def)

lemma search_le_antisym:
  "search_le p q \<Longrightarrow> search_le q p \<Longrightarrow> p \<noteq> [] \<Longrightarrow> q \<noteq> [] \<Longrightarrow> p = q"
  by (induction p q rule: search_le.induct) auto

lemma preorder_list_nonempty: "p \<in> set (preorder_list cs k) \<Longrightarrow> p \<noteq> []"
  by (induction cs arbitrary: k) auto

lemma Nil_notin_tl_preorder: "[] \<notin> set (tl (preorder n))"
  by (cases n) (auto dest: preorder_list_nonempty)

lemma preorder_list_mem:
  "j < length cs \<Longrightarrow> q \<in> set (preorder (cs ! j)) \<Longrightarrow> (k + j) # q \<in> set (preorder_list cs k)"
proof (induction cs arbitrary: k j)
  case Nil
  then show ?case by simp
next
  case (Cons c cs)
  show ?case
  proof (cases j)
    case 0
    with Cons.prems show ?thesis by simp
  next
    case (Suc j')
    with Cons.prems have "(Suc k + j') # q \<in> set (preorder_list cs (Suc k))"
      by (intro Cons.IH) simp_all
    with Suc show ?thesis by simp
  qed
qed

lemma preorder_list_elim:
  "p \<in> set (preorder_list cs k) \<Longrightarrow>
     \<exists>j q. j < length cs \<and> p = (k + j) # q \<and> q \<in> set (preorder (cs ! j))"
proof (induction cs arbitrary: k)
  case Nil
  then show ?case by simp
next
  case (Cons c cs)
  from Cons.prems consider (here) "p \<in> (#) k ` set (preorder c)"
    | (later) "p \<in> set (preorder_list cs (Suc k))"
    by auto
  then show ?case
  proof cases
    case here
    then obtain q where "p = k # q" "q \<in> set (preorder c)" by auto
    then show ?thesis by (intro exI [of _ 0] exI [of _ q]) simp
  next
    case later
    from Cons.IH [OF this] obtain j q where
      "j < length cs" "p = (Suc k + j) # q" "q \<in> set (preorder (cs ! j))" by blast
    then show ?thesis by (intro exI [of _ "Suc j"] exI [of _ q]) simp
  qed
qed

lemma node_at_in_preorder: "node_at n p = Some m \<Longrightarrow> p \<in> set (preorder n)"
proof (induction p arbitrary: n)
  case Nil
  show ?case by (cases n) simp
next
  case (Cons k q)
  obtain ty d as cs where n: "n = Node ty d as cs" by (cases n)
  with Cons.prems have k: "k < length cs" "node_at (cs ! k) q = Some m"
    by (simp_all split: if_splits)
  from Cons.IH [OF k(2)] have "q \<in> set (preorder (cs ! k))" .
  with preorder_list_mem [OF k(1), of q 0] n show ?case by simp
qed

lemma preorder_valid: "p \<in> set (preorder n) \<Longrightarrow> node_at n p \<noteq> None"
proof (induction n arbitrary: p)
  case (Node ty d as cs)
  show ?case
  proof (cases "p = []")
    case True
    then show ?thesis by simp
  next
    case False
    with Node.prems have "p \<in> set (preorder_list cs 0)" by simp
    from preorder_list_elim [OF this] obtain j q where
      j: "j < length cs" "p = j # q" "q \<in> set (preorder (cs ! j))" by auto
    from j(1) have "cs ! j \<in> set cs" by simp
    from Node.IH [OF this j(3)] have "node_at (cs ! j) q \<noteq> None" .
    with j show ?thesis by simp
  qed
qed

lemma set_preorder: "set (preorder n) = {p. node_at n p \<noteq> None}"
  using node_at_in_preorder preorder_valid by auto

lemma doc_less_simps:
  "doc_less [] q \<longleftrightarrow> q \<noteq> []"
  "doc_less (i # p) (j # q) \<longleftrightarrow> i < j \<or> (i = j \<and> doc_less p q)"
  by (auto simp: doc_less_def lexord_Nil_left neq_Nil_conv)

lemma preorder_list_sorted:
  "(\<And>c. c \<in> set cs \<Longrightarrow> sorted_wrt doc_less (preorder c)) \<Longrightarrow>
   sorted_wrt doc_less (preorder_list cs k)"
proof (induction cs arbitrary: k)
  case Nil
  show ?case by simp
next
  case (Cons c cs)
  have block: "sorted_wrt doc_less (map ((#) k) (preorder c))"
    using Cons.prems [of c] by (simp add: sorted_wrt_map doc_less_simps)
  have rest: "sorted_wrt doc_less (preorder_list cs (Suc k))"
    using Cons.prems by (intro Cons.IH) simp
  have cross: "doc_less x y"
    if "x \<in> set (map ((#) k) (preorder c))" "y \<in> set (preorder_list cs (Suc k))" for x y
  proof -
    from that(1) obtain q where x: "x = k # q" by auto
    from preorder_list_elim [OF that(2)] obtain j q' where y: "y = (Suc k + j) # q'" by blast
    from x y show ?thesis by (simp add: doc_less_simps)
  qed
  from block rest cross show ?case by (simp add: sorted_wrt_append)
qed

lemma preorder_sorted: "sorted_wrt doc_less (preorder n)"
proof (induction n)
  case (Node ty d as cs)
  have "sorted_wrt doc_less (preorder_list cs 0)"
    using Node.IH by (intro preorder_list_sorted) simp
  moreover have "doc_less [] q" if "q \<in> set (preorder_list cs 0)" for q
    using preorder_list_nonempty [OF that] by (simp add: doc_less_simps)
  ultimately show ?case by simp
qed

lemma parser_shaped_list_nth: "parser_shaped_list cs \<Longrightarrow> k < length cs \<Longrightarrow> parser_shaped (cs ! k)"
  by (induction cs arbitrary: k) (auto simp: nth_Cons')

lemma id_scope_parser_shaped:
  "parser_shaped_list (children n) \<Longrightarrow>
   id_scope n True p \<longleftrightarrow> p \<noteq> [] \<and> node_at n p \<noteq> None"
proof (induction p arbitrary: n)
  case Nil
  show ?case by simp
next
  case (Cons k q)
  note shaped = Cons.prems
  note IH = Cons.IH
  show ?case
  proof (cases q)
    case Nil
    then show ?thesis by simp
  next
    case q: (Cons b q')
    show ?thesis
    proof (cases "k < length (children n)")
      case False
      with q show ?thesis by simp
    next
      case True
      let ?c = "children n ! k"
      have ps: "parser_shaped ?c" using parser_shaped_list_nth [OF shaped True] .
      obtain ty d as cs where c: "?c = Node ty d as cs" by (cases ?c)
      from ps c have shape: "ty \<noteq> ElementNode \<longrightarrow> cs = []" "parser_shaped_list cs" by simp_all
      have sub: "id_scope ?c True q \<longleftrightarrow> q \<noteq> [] \<and> node_at ?c q \<noteq> None"
        using IH [of ?c] shape(2) c by simp
      show ?thesis
      proof (cases "ty = ElementNode")
        case elem: True
        with True q c sub show ?thesis by simp
      next
        case False
        with shape(1) have "cs = []" by simp
        with True False q c show ?thesis by simp
      qed
    qed
  qed
qed

section \<open>The by-id search\<close>

lemma firstWithId_scan_None:
  "firstWithId_scan cs k i = None \<longleftrightarrow> (\<forall>c\<in>set cs. \<not> has_id i c)"
  by (induction cs arbitrary: k) (auto simp: has_id_def)

lemma firstWithId_scan_Some:
  "firstWithId_scan cs k i = Some p \<Longrightarrow>
     \<exists>j<length cs. p = [k + j] \<and> has_id i (cs ! j) \<and> (\<forall>j'<j. \<not> has_id i (cs ! j'))"
proof (induction cs arbitrary: k)
  case Nil
  then show ?case by simp
next
  case (Cons c cs)
  show ?case
  proof (cases "has_id i c")
    case True
    with Cons.prems have "p = [k]" by (simp add: has_id_def)
    with True show ?thesis by (intro exI [of _ 0]) simp
  next
    case False
    with Cons.prems have "firstWithId_scan cs (Suc k) i = Some p"
      by (auto simp: has_id_def split: if_splits)
    from Cons.IH [OF this] obtain j where
      j: "j < length cs" "p = [Suc k + j]" "has_id i (cs ! j)" "\<forall>j'<j. \<not> has_id i (cs ! j')"
      by blast
    have "\<forall>j'<Suc j. \<not> has_id i ((c # cs) ! j')"
      using False j(4) by (auto simp: less_Suc_eq_0_disj)
    with j show ?thesis by (intro exI [of _ "Suc j"]) simp
  qed
qed

lemma firstWithId_descend_None:
  "firstWithId_descend cs k i = None \<longleftrightarrow>
     (\<forall>c\<in>set cs. Type c = ElementNode \<longrightarrow> firstWithId c i True = None)"
  by (induction cs arbitrary: k) (auto split: option.splits)

lemma firstWithId_descend_Some:
  "firstWithId_descend cs k i = Some p \<Longrightarrow>
     \<exists>j el. j < length cs \<and> p = (k + j) # el \<and> Type (cs ! j) = ElementNode
        \<and> firstWithId (cs ! j) i True = Some el
        \<and> (\<forall>j'<j. Type (cs ! j') = ElementNode \<longrightarrow> firstWithId (cs ! j') i True = None)"
proof (induction cs arbitrary: k)
  case Nil
  then show ?case by simp
next
  case (Cons c cs)
  show ?case
  proof (cases "Type c = ElementNode \<and> firstWithId c i True \<noteq> None")
    case True
    then obtain el where el: "firstWithId c i True = Some el" by auto
    with True Cons.prems have "p = k # el" by simp
    with True el show ?thesis by (intro exI [of _ 0] exI [of _ el]) simp
  next
    case False
    with Cons.prems have "firstWithId_descend cs (Suc k) i = Some p"
      by (auto split: if_splits option.splits)
    from Cons.IH [OF this] obtain j el where
      j: "j < length cs" "p = (Suc k + j) # el" "Type (cs ! j) = ElementNode"
         "firstWithId (cs ! j) i True = Some el"
         "\<forall>j'<j. Type (cs ! j') = ElementNode \<longrightarrow> firstWithId (cs ! j') i True = None"
      by blast
    have "\<forall>j'<Suc j. Type ((c # cs) ! j') = ElementNode
            \<longrightarrow> firstWithId ((c # cs) ! j') i True = None"
      using False j(5) by (auto simp: less_Suc_eq_0_disj)
    with j show ?thesis by (intro exI [of _ "Suc j"] exI [of _ el]) simp
  qed
qed

lemma firstWithId_spec:
  "(firstWithId n i r = None \<longrightarrow> (\<forall>p. \<not> id_match n i r p)) \<and>
   (\<forall>p. firstWithId n i r = Some p \<longrightarrow>
        id_match n i r p \<and> (\<forall>q. id_match n i r q \<longrightarrow> search_le p q))"
proof (induction n arbitrary: r)
  case (Node ty d as cs)
  let ?n = "Node ty d as cs"
  have IH_None: "\<And>c q. c \<in> set cs \<Longrightarrow> firstWithId c i True = None \<Longrightarrow> \<not> id_match c i True q"
    using Node.IH by blast
  have IH_Some: "\<And>c p. c \<in> set cs \<Longrightarrow> firstWithId c i True = Some p \<Longrightarrow> id_match c i True p"
    using Node.IH by blast
  have IH_le: "\<And>c p q. c \<in> set cs \<Longrightarrow> firstWithId c i True = Some p \<Longrightarrow>
      id_match c i True q \<Longrightarrow> search_le p q"
    using Node.IH by blast
  show ?case
  proof (cases "firstWithId_scan cs 0 i")
    case (Some p)
    then obtain j where
      j: "j < length cs" "p = [j]" "has_id i (cs ! j)" "\<forall>j'<j. \<not> has_id i (cs ! j')"
      using firstWithId_scan_Some [of cs 0 i p] by auto
    have res: "firstWithId ?n i r = Some [j]" using Some j(2) by simp
    have m: "id_match ?n i r [j]" using j by (simp add: id_match_single)
    have le: "search_le [j] q" if q: "id_match ?n i r q" for q
    proof (cases q rule: path_cases)
      case Nil
      with q show ?thesis by (simp add: id_match_Nil)
    next
      case (Single k)
      with q have "has_id i (cs ! k)" by (simp add: id_match_single)
      with j(4) have "\<not> k < j" by blast
      with Single show ?thesis by simp
    next
      case (Deep k b q')
      then show ?thesis by simp
    qed
    show ?thesis using res m le by simp
  next
    case None
    then have nochild: "\<And>k. k < length cs \<Longrightarrow> \<not> has_id i (cs ! k)"
      by (simp add: firstWithId_scan_None)
    show ?thesis
    proof (cases r)
      case False
      have res: "firstWithId ?n i r = None" using None False by simp
      have "\<not> id_match ?n i r q" for q
      proof (cases q rule: path_cases)
        case Nil
        then show ?thesis by (simp add: id_match_Nil)
      next
        case (Single k)
        then show ?thesis using nochild by (auto simp: id_match_single)
      next
        case (Deep k b q')
        then show ?thesis using False by (simp add: id_match_deep)
      qed
      with res show ?thesis by simp
    next
      case True
      have res: "firstWithId ?n i r = firstWithId_descend cs 0 i" using None True by simp
      show ?thesis
      proof (cases "firstWithId_descend cs 0 i")
        case None
        then have sub: "\<And>c. c \<in> set cs \<Longrightarrow> Type c = ElementNode \<Longrightarrow> firstWithId c i True = None"
          by (simp add: firstWithId_descend_None)
        have "\<not> id_match ?n i r q" for q
        proof (cases q rule: path_cases)
          case Nil
          then show ?thesis by (simp add: id_match_Nil)
        next
          case (Single k)
          then show ?thesis using nochild by (auto simp: id_match_single)
        next
          case (Deep k b q')
          show ?thesis
          proof
            assume "id_match ?n i r q"
            with Deep have k: "k < length cs" "Type (cs ! k) = ElementNode"
              "id_match (cs ! k) i True (b # q')"
              by (simp_all add: id_match_deep)
            from k(1) have memk: "cs ! k \<in> set cs" by simp
            with sub k(2) have "firstWithId (cs ! k) i True = None" by blast
            with IH_None memk k(3) show False by blast
          qed
        qed
        with res None show ?thesis by simp
      next
        case (Some p)
        then obtain j el where
          j: "j < length cs" "p = j # el" "Type (cs ! j) = ElementNode"
             "firstWithId (cs ! j) i True = Some el"
             "\<forall>j'<j. Type (cs ! j') = ElementNode \<longrightarrow> firstWithId (cs ! j') i True = None"
          using firstWithId_descend_Some [of cs 0 i p] by auto
        have mem: "cs ! j \<in> set cs" using j(1) by simp
        have mel: "id_match (cs ! j) i True el" using IH_Some [OF mem j(4)] .
        then obtain a el' where el: "el = a # el'"
          by (cases el) (auto simp: id_match_Nil)
        have m: "id_match ?n i r p" using j mel el True by (simp add: id_match_deep)
        have le: "search_le p q" if q: "id_match ?n i r q" for q
        proof (cases q rule: path_cases)
          case Nil
          with q show ?thesis by (simp add: id_match_Nil)
        next
          case (Single k)
          with q nochild show ?thesis by (auto simp: id_match_single)
        next
          case (Deep k b q')
          with q have k: "k < length cs" "Type (cs ! k) = ElementNode"
            "id_match (cs ! k) i True (b # q')"
            by (simp_all add: id_match_deep)
          have memk: "cs ! k \<in> set cs" using k(1) by simp
          have "\<not> k < j"
          proof
            assume "k < j"
            with j(5) k(2) have "firstWithId (cs ! k) i True = None" by blast
            with IH_None memk k(3) show False by blast
          qed
          then consider "j < k" | "k = j" by linarith
          then show ?thesis
          proof cases
            case 1
            with Deep j(2) el show ?thesis by simp
          next
            case 2
            with k(3) have "search_le el (b # q')" using IH_le [OF mem j(4)] by simp
            with 2 Deep j(2) el show ?thesis by simp
          qed
        qed
        show ?thesis using res Some m le by simp
      qed
    qed
  qed
qed

lemma firstWithId_None_iff: "firstWithId n i r = None \<longleftrightarrow> (\<forall>p. \<not> id_match n i r p)"
proof
  assume "firstWithId n i r = None"
  then show "\<forall>p. \<not> id_match n i r p" using firstWithId_spec [of n i r] by blast
next
  assume no: "\<forall>p. \<not> id_match n i r p"
  show "firstWithId n i r = None"
  proof (cases "firstWithId n i r")
    case None
    then show ?thesis .
  next
    case (Some p)
    then have "id_match n i r p" using firstWithId_spec [of n i r] by blast
    with no show ?thesis by blast
  qed
qed


section \<open>The by-class and by-tag collections\<close>

lemma filter_preorder_split:
  "filter (\<lambda>p. holds_at ch p P) (preorder ch) =
     (if P ch then [[]] else []) @ filter (\<lambda>p. holds_at ch p P) (tl (preorder ch))"
  by (cases ch) simp

lemma allWithClassName_loop_filter:
  assumes "\<And>ch. ch \<in> set cs \<Longrightarrow>
      allWithClassName ch c True = filter (\<lambda>p. holds_at ch p (has_class c)) (preorder ch)"
    and "length pre = k"
  shows "allWithClassName_loop cs k c =
      filter (\<lambda>p. holds_at (Node ty d as (pre @ cs)) p (has_class c)) (preorder_list cs k)"
  using assms
proof (induction cs arbitrary: pre k)
  case Nil
  show ?case by simp
next
  case (Cons ch cs)
  have hd: "allWithClassName ch c True = filter (\<lambda>p. holds_at ch p (has_class c)) (preorder ch)"
    using Cons.prems(1) by simp
  have tl: "allWithClassName_loop cs (Suc k) c =
      filter (\<lambda>p. holds_at (Node ty d as ((pre @ [ch]) @ cs)) p (has_class c))
        (preorder_list cs (Suc k))"
    using Cons.prems by (intro Cons.IH) auto
  have step: "\<And>q. holds_at (Node ty d as (pre @ ch # cs)) (k # q) (has_class c)
      = holds_at ch q (has_class c)"
    using Cons.prems(2) by (simp add: holds_at_Cons nth_append)
  show ?case using hd tl step by (simp add: filter_map comp_def)
qed

lemma allWithClassName_filter:
  "allWithClassName n c r = filter (\<lambda>p. holds_at n p (has_class c)) (class_scope n r)"
proof (induction n arbitrary: r)
  case (Node ty d as cs)
  have "\<And>ch. ch \<in> set cs \<Longrightarrow>
      allWithClassName ch c True = filter (\<lambda>p. holds_at ch p (has_class c)) (preorder ch)"
    using Node.IH [of _ True] by (simp add: class_scope_def)
  from allWithClassName_loop_filter
    [where pre = "[]" and k = 0 and ty = ty and d = d and as = as and cs = cs and c = c, OF this]
  have loop: "allWithClassName_loop cs 0 c =
      filter (\<lambda>p. holds_at (Node ty d as cs) p (has_class c)) (preorder_list cs 0)"
    by simp
  have self: "has_class c (Node ty d as cs) = HasClass (Node ty d as cs) c"
    by (simp add: has_class_def)
  show ?case using loop self by (simp add: class_scope_def Let_def)
qed

lemma allWithTag_loop_rec:
  assumes "\<And>ch. ch \<in> set cs \<Longrightarrow>
      allWithTag ch t True = filter (\<lambda>p. holds_at ch p (has_tag t)) (tl (preorder ch))"
    and "length pre = k"
  shows "allWithTag_loop cs k t True =
      filter (\<lambda>p. holds_at (Node ty d as (pre @ cs)) p (has_tag t)) (preorder_list cs k)"
  using assms
proof (induction cs arbitrary: pre k)
  case Nil
  show ?case by simp
next
  case (Cons ch cs)
  have hd: "allWithTag ch t True = filter (\<lambda>p. holds_at ch p (has_tag t)) (tl (preorder ch))"
    using Cons.prems(1) by simp
  have tl: "allWithTag_loop cs (Suc k) t True =
      filter (\<lambda>p. holds_at (Node ty d as ((pre @ [ch]) @ cs)) p (has_tag t))
        (preorder_list cs (Suc k))"
    using Cons.prems by (intro Cons.IH) auto
  have step: "\<And>q. holds_at (Node ty d as (pre @ ch # cs)) (k # q) (has_tag t)
      = holds_at ch q (has_tag t)"
    using Cons.prems(2) by (simp add: holds_at_Cons nth_append)
  have "filter (\<lambda>p. holds_at (Node ty d as (pre @ ch # cs)) p (has_tag t))
          (map ((#) k) (preorder ch))
        = map ((#) k) (filter (\<lambda>q. holds_at ch q (has_tag t)) (preorder ch))"
    using step by (simp add: filter_map comp_def)
  also have "\<dots> = map ((#) k) ((if has_tag t ch then [[]] else []) @ allWithTag ch t True)"
    by (subst filter_preorder_split) (simp add: hd)
  finally have block: "filter (\<lambda>p. holds_at (Node ty d as (pre @ ch # cs)) p (has_tag t))
          (map ((#) k) (preorder ch))
        = (if has_tag t ch then [[k]] else []) @ map ((#) k) (allWithTag ch t True)"
    by simp
  have self: "has_tag t ch = (Type ch = ElementNode \<and> Data ch = t)"
    by (simp add: has_tag_def)
  show ?case using block tl self by simp
qed

lemma allWithTag_loop_shallow:
  "length pre = k \<Longrightarrow>
   allWithTag_loop cs k t False =
     filter (\<lambda>p. holds_at (Node ty d as (pre @ cs)) p (has_tag t))
       (map (\<lambda>j. [j]) [k..<k + length cs])"
proof (induction cs arbitrary: pre k)
  case Nil
  show ?case by simp
next
  case (Cons ch cs)
  have tl: "allWithTag_loop cs (Suc k) t False =
      filter (\<lambda>p. holds_at (Node ty d as ((pre @ [ch]) @ cs)) p (has_tag t))
        (map (\<lambda>j. [j]) [Suc k..<Suc k + length cs])"
    using Cons.prems by (intro Cons.IH) simp
  have up: "[k..<k + length (ch # cs)] = k # [Suc k..<Suc k + length cs]"
    by (subst upt_rec) simp
  have here: "holds_at (Node ty d as (pre @ ch # cs)) [k] (has_tag t) = has_tag t ch"
    using Cons.prems by (simp add: holds_at_Cons nth_append)
  have self: "has_tag t ch = (Type ch = ElementNode \<and> Data ch = t)"
    by (simp add: has_tag_def)
  show ?case unfolding up using tl here self by simp
qed

lemma allWithTag_filter:
  "allWithTag n t r = filter (\<lambda>p. holds_at n p (has_tag t)) (tag_scope n r)"
proof (induction n arbitrary: r)
  case (Node ty d as cs)
  show ?case
  proof (cases r)
    case True
    have "\<And>ch. ch \<in> set cs \<Longrightarrow>
        allWithTag ch t True = filter (\<lambda>p. holds_at ch p (has_tag t)) (tl (preorder ch))"
      using Node.IH [of _ True] by (simp add: tag_scope_def)
    from allWithTag_loop_rec
      [where pre = "[]" and k = 0 and ty = ty and d = d and as = as and cs = cs and t = t, OF this]
    show ?thesis using True by (simp add: tag_scope_def)
  next
    case False
    from allWithTag_loop_shallow
      [where pre = "[]" and k = 0 and ty = ty and d = d and as = as and cs = cs and t = t]
    show ?thesis using False by (simp add: tag_scope_def)
  qed
qed

section \<open>The claims about selection\<close>

text \<open>
  C1. The claim: when an element with the selector's non-empty id exists in scope,
  \<open>SelectAll\<close> returns a sequence containing it. The code tests the search result the
  wrong way round: here the first child carries the id \<open>x\<close>, the search finds it,
  and \<open>SelectAll\<close> returns the empty sequence.
\<close>

theorem SelectAll_id_found_returns_empty:
  "firstWithId
     (Node ElementNode ''div'' []
        [Node ElementNode ''p'' [\<lparr>Namespace = [], Key = ''id'', Val = ''x''\<rparr>] []])
     ''x'' False = Some [0]
   \<and> SelectAll
     (Node ElementNode ''div'' []
        [Node ElementNode ''p'' [\<lparr>Namespace = [], Key = ''id'', Val = ''x''\<rparr>] []])
     \<lparr>Id = ''x'', ClassName = [], Tag = [], Recursive = False\<rparr> = Slice []"
  by (simp add: SelectAll_def Attr_def)

text \<open>
  C2. When the selector's id is non-empty and no element in the scope of the by-id
  search has it, \<open>SelectAll\<close> returns the one-element sequence holding the nil pointer.
  When the class name decides (the id is empty) and no node in the scope of the
  by-class collection has the class, or the tag decides (id and class name are empty)
  and no node in the scope of the by-tag collection has the tag, \<open>SelectAll\<close> returns
  an allocated sequence of length zero.
\<close>

theorem SelectAll_no_match:
  "(Id s \<noteq> [] \<and> (\<forall>p. \<not> id_match n (Id s) (Recursive s) p)
      \<longrightarrow> SelectAll n s = Slice [None])
   \<and> (Id s = [] \<and> ClassName s \<noteq> []
        \<and> (\<forall>p\<in>set (class_scope n (Recursive s)). \<not> holds_at n p (has_class (ClassName s)))
      \<longrightarrow> SelectAll n s = Slice [])
   \<and> (Id s = [] \<and> ClassName s = [] \<and> Tag s \<noteq> []
        \<and> (\<forall>p\<in>set (tag_scope n (Recursive s)). \<not> holds_at n p (has_tag (Tag s)))
      \<longrightarrow> SelectAll n s = Slice [])"
proof (intro conjI impI)
  assume "Id s \<noteq> [] \<and> (\<forall>p. \<not> id_match n (Id s) (Recursive s) p)"
  then show "SelectAll n s = Slice [None]"
    using firstWithId_None_iff [of n "Id s" "Recursive s"] by (simp add: SelectAll_def)
next
  assume a: "Id s = [] \<and> ClassName s \<noteq> []
    \<and> (\<forall>p\<in>set (class_scope n (Recursive s)). \<not> holds_at n p (has_class (ClassName s)))"
  then have "allWithClassName n (ClassName s) (Recursive s) = []"
    by (simp add: allWithClassName_filter filter_empty_conv)
  with a show "SelectAll n s = Slice []" by (simp add: SelectAll_def)
next
  assume a: "Id s = [] \<and> ClassName s = [] \<and> Tag s \<noteq> []
    \<and> (\<forall>p\<in>set (tag_scope n (Recursive s)). \<not> holds_at n p (has_tag (Tag s)))"
  then have "allWithTag n (Tag s) (Recursive s) = []"
    by (simp add: allWithTag_filter filter_empty_conv)
  with a show "SelectAll n s = Slice []" by (simp add: SelectAll_def)
qed

theorem SelectAll_no_match_witness:
  "SelectAll id_example \<lparr>Id = ''y'', ClassName = ''c'', Tag = ''div'', Recursive = True\<rparr>
     = Slice [None]
   \<and> SelectAll id_example \<lparr>Id = [], ClassName = ''k'', Tag = ''div'', Recursive = True\<rparr>
     = Slice []
   \<and> SelectAll id_example \<lparr>Id = [], ClassName = [], Tag = ''span'', Recursive = False\<rparr>
     = Slice []"
proof -
  have "firstWithId id_example ''y'' True = None"
    by (simp add: id_example_def Attr_def)
  then have 1: "\<forall>p. \<not> id_match id_example ''y'' True p"
    by (simp add: firstWithId_None_iff)
  have 2: "\<forall>p\<in>set (class_scope id_example True). \<not> holds_at id_example p (has_class ''k'')"
    by (simp add: id_example_def class_scope_def holds_at_def has_class_def HasClass_def)
  have 3: "\<forall>p\<in>set (tag_scope id_example False). \<not> holds_at id_example p (has_tag ''span'')"
    by (simp add: id_example_def tag_scope_def holds_at_def has_tag_def upt_rec)
  show ?thesis
    using 1 2 3
      SelectAll_no_match [of "\<lparr>Id = ''y'', ClassName = ''c'', Tag = ''div'', Recursive = True\<rparr>" id_example]
      SelectAll_no_match [of "\<lparr>Id = [], ClassName = ''k'', Tag = ''div'', Recursive = True\<rparr>" id_example]
      SelectAll_no_match [of "\<lparr>Id = [], ClassName = [], Tag = ''span'', Recursive = False\<rparr>" id_example]
    by simp
qed

text \<open>
  C3, as the specification states it: the by-id search returns a node iff an element
  in scope has the id, and among several it returns the first in document order among
  those at the shallowest qualifying depth. In \<open>id_example\<close> the recursive search
  returns the element three levels down, although an element with the same id sits two
  levels down under the second child.
\<close>

theorem firstWithId_shallowest_counterexample:
  "firstWithId id_example ''x'' True = Some [0, 0, 0]
   \<and> id_match id_example ''x'' True [1, 0]
   \<and> length [1, 0 :: nat] < length [0, 0, 0 :: nat]"
  by (simp add: id_example_def id_match_def holds_at_def has_id_def Attr_def)

text \<open>
  C3, amended: the by-id search returns a node iff an element in its scope (immediate
  children; in recursive mode also what lies below them through element nodes) has the
  id, where the id of an element is the value of its first attribute keyed \<open>id\<close> and
  the empty string without one. The node returned is such an element, and it is the
  first of them in the search order: the first matching immediate child if there is
  one, otherwise the node the same rule picks inside the first element child that
  holds a match.
\<close>

theorem firstWithId_first_in_search_order:
  "(firstWithId n i r \<noteq> None \<longleftrightarrow> (\<exists>p. id_match n i r p))
   \<and> (\<forall>p. firstWithId n i r = Some p \<longrightarrow>
         id_match n i r p \<and> (\<forall>q. id_match n i r q \<longrightarrow> search_le p q))"
  using firstWithId_spec [of n i r] firstWithId_None_iff [of n i r] by blast

theorem firstWithId_first_in_search_order_witness:
  "id_match id_example ''x'' True [0, 0, 0] \<and> search_le [0, 0, 0] [1, 0]"
proof -
  have 1: "firstWithId id_example ''x'' True = Some [0, 0, 0]"
    by (simp add: id_example_def Attr_def)
  have 2: "id_match id_example ''x'' True [1, 0]"
    by (simp add: id_example_def id_match_def holds_at_def has_id_def Attr_def)
  from firstWithId_first_in_search_order [of id_example "''x''" True] 1 2
  show ?thesis by blast
qed

text \<open>
  C7. The recursive by-tag collection never lists the queried node itself: it is the
  nodes below the queried node, in document order, that are elements with the tag. The
  by-class collection lists the queried node when it has the class, and only it in
  shallow mode; in recursive mode it is all nodes of the subtree that have the class,
  in document order, so the queried node comes first and every child's subtree is
  listed in full before the next sibling.
\<close>

theorem all_collections_root_and_order:
  "[] \<notin> set (AllWithTagR n t)
   \<and> AllWithTagR n t = filter (\<lambda>p. holds_at n p (has_tag t)) (tl (preorder n))
   \<and> AllWithClassName n c = (if HasClass n c then [[]] else [])
   \<and> AllWithClassNameR n c = filter (\<lambda>p. holds_at n p (has_class c)) (preorder n)
   \<and> (HasClass n c \<longrightarrow>
        (\<exists>rest. AllWithClassNameR n c = [] # rest \<and> [] \<notin> set rest))"
proof -
  have tag: "AllWithTagR n t = filter (\<lambda>p. holds_at n p (has_tag t)) (tl (preorder n))"
    by (simp add: AllWithTagR_def allWithTag_filter tag_scope_def)
  have noroot: "[] \<notin> set (AllWithTagR n t)"
    using Nil_notin_tl_preorder [of n] by (simp add: tag)
  have cls: "AllWithClassName n c = (if HasClass n c then [[]] else [])"
    by (simp add: AllWithClassName_def allWithClassName_filter class_scope_def has_class_def)
  have clsR: "AllWithClassNameR n c = filter (\<lambda>p. holds_at n p (has_class c)) (preorder n)"
    by (simp add: AllWithClassNameR_def allWithClassName_filter class_scope_def)
  have first: "\<exists>rest. AllWithClassNameR n c = [] # rest \<and> [] \<notin> set rest" if "HasClass n c"
  proof -
    have "AllWithClassNameR n c =
        [] # filter (\<lambda>p. holds_at n p (has_class c)) (tl (preorder n))"
      using that by (simp add: clsR filter_preorder_split [of n] has_class_def)
    moreover have "[] \<notin> set (filter (\<lambda>p. holds_at n p (has_class c)) (tl (preorder n)))"
      using Nil_notin_tl_preorder [of n] by simp
    ultimately show ?thesis by blast
  qed
  show ?thesis using tag noroot cls clsR first by blast
qed

theorem all_collections_root_and_order_witness:
  "AllWithTagR id_example ''div'' = [[0], [0, 0], [1]]
   \<and> AllWithClassNameR (children id_example ! 1) ''c'' = [[]]
   \<and> preorder id_example = [[], [0], [0, 0], [0, 0, 0], [1], [1, 0]]"
proof -
  have pre: "preorder id_example = [[], [0], [0, 0], [0, 0, 0], [1], [1, 0]]"
    by (simp add: id_example_def)
  have cl: "HasClass (children id_example ! 1) ''c''"
    by (simp add: id_example_def HasClass_def)
  have pre1: "preorder (children id_example ! 1) = [[], [0]]"
    by (simp add: id_example_def)
  have h: "\<not> holds_at (children id_example ! 1) [0] (has_class ''c'')"
    by (simp add: id_example_def holds_at_def has_class_def HasClass_def)
  have t: "filter (\<lambda>p. holds_at id_example p (has_tag ''div'')) [[0], [0, 0], [0, 0, 0], [1], [1, 0]]
      = [[0], [0, 0], [1]]"
    by (simp add: id_example_def holds_at_def has_tag_def)
  from all_collections_root_and_order [of id_example "''div''" "''c''"] pre t
  have a: "AllWithTagR id_example ''div'' = [[0], [0, 0], [1]]" by simp
  from all_collections_root_and_order [of "children id_example ! 1" "''div''" "''c''"] cl pre1 h
  have b: "AllWithClassNameR (children id_example ! 1) ''c'' = [[]]" by (simp add: has_class_def)
  from a b pre show ?thesis by simp
qed

text \<open>
  C8. The first non-empty field among id, class name and tag, in this order, decides
  which search runs, and fields after it do not influence the result; when all three
  are empty \<open>SelectFirst\<close> returns the nil pointer and \<open>SelectAll\<close> the nil sequence,
  which has no elements.
\<close>

theorem Select_dispatch:
  "(Id s \<noteq> [] \<longrightarrow>
      SelectFirst n s = firstWithId n (Id s) (Recursive s)
      \<and> SelectAll n s =
          (if firstWithId n (Id s) (Recursive s) = None then Slice [None] else Slice [])
      \<and> SelectFirst n (s\<lparr>ClassName := c, Tag := t\<rparr>) = SelectFirst n s
      \<and> SelectAll n (s\<lparr>ClassName := c, Tag := t\<rparr>) = SelectAll n s)
   \<and> (Id s = [] \<and> ClassName s \<noteq> [] \<longrightarrow>
      SelectFirst n s = firstWithClassName n (ClassName s) (Recursive s)
      \<and> SelectAll n s = Slice (map Some (allWithClassName n (ClassName s) (Recursive s)))
      \<and> SelectFirst n (s\<lparr>Tag := t\<rparr>) = SelectFirst n s
      \<and> SelectAll n (s\<lparr>Tag := t\<rparr>) = SelectAll n s)
   \<and> (Id s = [] \<and> ClassName s = [] \<and> Tag s \<noteq> [] \<longrightarrow>
      SelectFirst n s = firstWithTag n (Tag s) (Recursive s)
      \<and> SelectAll n s = Slice (map Some (allWithTag n (Tag s) (Recursive s))))
   \<and> (Id s = [] \<and> ClassName s = [] \<and> Tag s = [] \<longrightarrow>
      SelectFirst n s = None \<and> SelectAll n s = NilSlice \<and> elems (SelectAll n s) = [])"
  by (auto simp: SelectFirst_def SelectAll_def Let_def)

theorem Select_dispatch_witness:
  "SelectFirst id_example \<lparr>Id = ''x'', ClassName = ''c'', Tag = ''span'', Recursive = True\<rparr>
     = Some [0, 0, 0]
   \<and> SelectFirst id_example \<lparr>Id = [], ClassName = ''c'', Tag = ''span'', Recursive = True\<rparr>
     = Some [1]
   \<and> SelectFirst id_example \<lparr>Id = [], ClassName = [], Tag = ''span'', Recursive = True\<rparr>
     = Some [0, 0, 0]
   \<and> SelectFirst id_example \<lparr>Id = [], ClassName = [], Tag = [], Recursive = True\<rparr> = None
   \<and> SelectAll id_example \<lparr>Id = [], ClassName = [], Tag = [], Recursive = True\<rparr> = NilSlice"
proof -
  have 1: "firstWithId id_example ''x'' True = Some [0, 0, 0]"
    by (simp add: id_example_def Attr_def)
  have 2: "firstWithClassName id_example ''c'' True = Some [1]"
    by (simp add: id_example_def HasClass_def)
  have 3: "firstWithTag id_example ''span'' True = Some [0, 0, 0]"
    by (simp add: id_example_def)
  show ?thesis
    using 1 2 3
      Select_dispatch [of "\<lparr>Id = ''x'', ClassName = ''c'', Tag = ''span'', Recursive = True\<rparr>" id_example]
      Select_dispatch [of "\<lparr>Id = [], ClassName = ''c'', Tag = ''span'', Recursive = True\<rparr>" id_example]
      Select_dispatch [of "\<lparr>Id = [], ClassName = [], Tag = ''span'', Recursive = True\<rparr>" id_example]
      Select_dispatch [of "\<lparr>Id = [], ClassName = [], Tag = [], Recursive = True\<rparr>" id_example]
    by simp
qed


section \<open>Termination on finite acyclic trees\<close>

lemma forest_at_Nil: "forest_at h c [] \<longleftrightarrow> c = None"
  by (cases c) simp_all

lemma forest_at_Cons:
  "forest_at h c (t # ts) \<longleftrightarrow>
     (\<exists>a. c = Some a \<and> tree_at h a t \<and> forest_at h (NextSibling (h a)) ts)"
  by (cases c) simp_all

subsection \<open>By id\<close>

lemma firstWithId_scan_p_terminates:
  "forest_at h c cs \<Longrightarrow> fuel_for_list cs \<le> f \<Longrightarrow> \<exists>r. firstWithId_scan_p f h c i = Some r"
proof (induction cs arbitrary: c f)
  case Nil
  then obtain f' where "f = Suc f'" by (cases f) auto
  with Nil show ?case by (simp add: forest_at_Nil)
next
  case (Cons t ts)
  from Cons.prems(1) obtain a where
    a: "c = Some a" "forest_at h (NextSibling (h a)) ts"
    by (auto simp: forest_at_Cons)
  from Cons.prems(2) obtain f' where f: "f = Suc f'" "fuel_for_list ts \<le> f'"
    by (cases f) auto
  from Cons.IH [OF a(2) f(2)] a(1) f(1) show ?case by simp
qed

lemma firstWithId_descend_p_terminates:
  "forest_at h c cs \<Longrightarrow> fuel_for_list cs \<le> f \<Longrightarrow>
   (\<And>t a f. t \<in> set cs \<Longrightarrow> tree_at h a t \<Longrightarrow> fuel_for t \<le> f \<Longrightarrow>
      \<exists>r. firstWithId_p f h a i True = Some r) \<Longrightarrow>
   \<exists>r. firstWithId_descend_p f h c i = Some r"
proof (induction cs arbitrary: c f)
  case Nil
  then obtain f' where "f = Suc f'" by (cases f) auto
  with Nil show ?case by (simp add: forest_at_Nil)
next
  case (Cons t ts)
  from Cons.prems(1) obtain a where
    a: "c = Some a" "tree_at h a t" "forest_at h (NextSibling (h a)) ts"
    by (auto simp: forest_at_Cons)
  from Cons.prems(2) obtain f' where
    f: "f = Suc f'" "fuel_for t \<le> f'" "fuel_for_list ts \<le> f'"
    by (cases f) auto
  have sub: "\<exists>r. firstWithId_p f' h a i True = Some r"
    using Cons.prems(3) [of t a f'] a(2) f(2) by simp
  have rest: "\<exists>r. firstWithId_descend_p f' h (NextSibling (h a)) i = Some r"
  proof (rule Cons.IH [OF a(3) f(3)])
    fix t' a' f''
    assume "t' \<in> set ts" "tree_at h a' t'" "fuel_for t' \<le> f''"
    then show "\<exists>r. firstWithId_p f'' h a' i True = Some r"
      using Cons.prems(3) [of t' a' f''] by simp
  qed
  from a(1) f(1) sub rest show ?case by (auto split: option.splits)
qed

lemma firstWithId_p_terminates:
  "tree_at h a t \<Longrightarrow> fuel_for t \<le> f \<Longrightarrow> \<exists>r. firstWithId_p f h a i rec = Some r"
proof (induction t arbitrary: a f rec)
  case (Node ty d as cs)
  from Node.prems(1) have fo: "forest_at h (FirstChild (h a)) cs" by simp
  from Node.prems(2) obtain f' where f: "f = Suc f'" "fuel_for_list cs \<le> f'"
    by (cases f) auto
  have scan: "\<exists>r. firstWithId_scan_p f' h (FirstChild (h a)) i = Some r"
    using firstWithId_scan_p_terminates [OF fo f(2)] .
  have desc: "\<exists>r. firstWithId_descend_p f' h (FirstChild (h a)) i = Some r"
  proof (rule firstWithId_descend_p_terminates [OF fo f(2)])
    fix t a' f''
    assume "t \<in> set cs" "tree_at h a' t" "fuel_for t \<le> f''"
    then show "\<exists>r. firstWithId_p f'' h a' i True = Some r" using Node.IH by blast
  qed
  from scan desc f(1) show ?case by (auto split: option.splits)
qed

subsection \<open>By class name\<close>

lemma firstWithClassName_scan_p_terminates:
  "forest_at h c cs \<Longrightarrow> fuel_for_list cs \<le> f \<Longrightarrow>
   \<exists>r. firstWithClassName_scan_p f h c cl = Some r"
proof (induction cs arbitrary: c f)
  case Nil
  then obtain f' where "f = Suc f'" by (cases f) auto
  with Nil show ?case by (simp add: forest_at_Nil)
next
  case (Cons t ts)
  from Cons.prems(1) obtain a where
    a: "c = Some a" "forest_at h (NextSibling (h a)) ts"
    by (auto simp: forest_at_Cons)
  from Cons.prems(2) obtain f' where f: "f = Suc f'" "fuel_for_list ts \<le> f'"
    by (cases f) auto
  from Cons.IH [OF a(2) f(2)] a(1) f(1) show ?case by simp
qed

lemma firstWithClassName_descend_p_terminates:
  "forest_at h c cs \<Longrightarrow> fuel_for_list cs \<le> f \<Longrightarrow>
   (\<And>t a f. t \<in> set cs \<Longrightarrow> tree_at h a t \<Longrightarrow> fuel_for t \<le> f \<Longrightarrow>
      \<exists>r. firstWithClassName_p f h a cl True = Some r) \<Longrightarrow>
   \<exists>r. firstWithClassName_descend_p f h c cl = Some r"
proof (induction cs arbitrary: c f)
  case Nil
  then obtain f' where "f = Suc f'" by (cases f) auto
  with Nil show ?case by (simp add: forest_at_Nil)
next
  case (Cons t ts)
  from Cons.prems(1) obtain a where
    a: "c = Some a" "tree_at h a t" "forest_at h (NextSibling (h a)) ts"
    by (auto simp: forest_at_Cons)
  from Cons.prems(2) obtain f' where
    f: "f = Suc f'" "fuel_for t \<le> f'" "fuel_for_list ts \<le> f'"
    by (cases f) auto
  have sub: "\<exists>r. firstWithClassName_p f' h a cl True = Some r"
    using Cons.prems(3) [of t a f'] a(2) f(2) by simp
  have rest: "\<exists>r. firstWithClassName_descend_p f' h (NextSibling (h a)) cl = Some r"
  proof (rule Cons.IH [OF a(3) f(3)])
    fix t' a' f''
    assume "t' \<in> set ts" "tree_at h a' t'" "fuel_for t' \<le> f''"
    then show "\<exists>r. firstWithClassName_p f'' h a' cl True = Some r"
      using Cons.prems(3) [of t' a' f''] by simp
  qed
  from a(1) f(1) sub rest show ?case by (auto split: option.splits)
qed

lemma firstWithClassName_p_terminates:
  "tree_at h a t \<Longrightarrow> fuel_for t \<le> f \<Longrightarrow> \<exists>r. firstWithClassName_p f h a cl rec = Some r"
proof (induction t arbitrary: a f rec)
  case (Node ty d as cs)
  from Node.prems(1) have fo: "forest_at h (FirstChild (h a)) cs" by simp
  from Node.prems(2) obtain f' where f: "f = Suc f'" "fuel_for_list cs \<le> f'"
    by (cases f) auto
  have scan: "\<exists>r. firstWithClassName_scan_p f' h (FirstChild (h a)) cl = Some r"
    using firstWithClassName_scan_p_terminates [OF fo f(2)] .
  have desc: "\<exists>r. firstWithClassName_descend_p f' h (FirstChild (h a)) cl = Some r"
  proof (rule firstWithClassName_descend_p_terminates [OF fo f(2)])
    fix t a' f''
    assume "t \<in> set cs" "tree_at h a' t" "fuel_for t \<le> f''"
    then show "\<exists>r. firstWithClassName_p f'' h a' cl True = Some r" using Node.IH by blast
  qed
  from scan desc f(1) show ?case by (auto split: option.splits)
qed

lemma allWithClassName_loop_p_terminates:
  "forest_at h c cs \<Longrightarrow> fuel_for_list cs \<le> f \<Longrightarrow>
   (\<And>t a f. t \<in> set cs \<Longrightarrow> tree_at h a t \<Longrightarrow> fuel_for t \<le> f \<Longrightarrow>
      \<exists>r. allWithClassName_p f h a cl True = Some r) \<Longrightarrow>
   \<exists>r. allWithClassName_loop_p f h c cl res = Some r"
proof (induction cs arbitrary: c f res)
  case Nil
  then obtain f' where "f = Suc f'" by (cases f) auto
  with Nil show ?case by (simp add: forest_at_Nil)
next
  case (Cons t ts)
  from Cons.prems(1) obtain a where
    a: "c = Some a" "tree_at h a t" "forest_at h (NextSibling (h a)) ts"
    by (auto simp: forest_at_Cons)
  from Cons.prems(2) obtain f' where
    f: "f = Suc f'" "fuel_for t \<le> f'" "fuel_for_list ts \<le> f'"
    by (cases f) auto
  have "\<exists>r. allWithClassName_p f' h a cl True = Some r"
    using Cons.prems(3) [of t a f'] a(2) f(2) by simp
  then obtain s where s: "allWithClassName_p f' h a cl True = Some s" by blast
  have rest: "\<exists>r. allWithClassName_loop_p f' h (NextSibling (h a)) cl (res @ s) = Some r"
  proof (rule Cons.IH [OF a(3) f(3)])
    fix t' a' f''
    assume "t' \<in> set ts" "tree_at h a' t'" "fuel_for t' \<le> f''"
    then show "\<exists>r. allWithClassName_p f'' h a' cl True = Some r"
      using Cons.prems(3) [of t' a' f''] by simp
  qed
  from a(1) f(1) s rest show ?case by simp
qed

lemma allWithClassName_p_terminates:
  "tree_at h a t \<Longrightarrow> fuel_for t \<le> f \<Longrightarrow> \<exists>r. allWithClassName_p f h a cl rec = Some r"
proof (induction t arbitrary: a f rec)
  case (Node ty d as cs)
  from Node.prems(1) have fo: "forest_at h (FirstChild (h a)) cs" by simp
  from Node.prems(2) obtain f' where f: "f = Suc f'" "fuel_for_list cs \<le> f'"
    by (cases f) auto
  have loop: "\<exists>r. allWithClassName_loop_p f' h (FirstChild (h a)) cl res = Some r" for res
  proof (rule allWithClassName_loop_p_terminates [OF fo f(2)])
    fix t a' f''
    assume "t \<in> set cs" "tree_at h a' t" "fuel_for t \<le> f''"
    then show "\<exists>r. allWithClassName_p f'' h a' cl True = Some r" using Node.IH by blast
  qed
  from loop [of "[a]"] loop [of "[]"] f(1) show ?case by (simp add: Let_def)
qed

subsection \<open>By tag\<close>

lemma firstWithTag_scan_p_terminates:
  "forest_at h c cs \<Longrightarrow> fuel_for_list cs \<le> f \<Longrightarrow> \<exists>r. firstWithTag_scan_p f h c g = Some r"
proof (induction cs arbitrary: c f)
  case Nil
  then obtain f' where "f = Suc f'" by (cases f) auto
  with Nil show ?case by (simp add: forest_at_Nil)
next
  case (Cons t ts)
  from Cons.prems(1) obtain a where
    a: "c = Some a" "forest_at h (NextSibling (h a)) ts"
    by (auto simp: forest_at_Cons)
  from Cons.prems(2) obtain f' where f: "f = Suc f'" "fuel_for_list ts \<le> f'"
    by (cases f) auto
  from Cons.IH [OF a(2) f(2)] a(1) f(1) show ?case by simp
qed

lemma firstWithTag_descend_p_terminates:
  "forest_at h c cs \<Longrightarrow> fuel_for_list cs \<le> f \<Longrightarrow>
   (\<And>t a f. t \<in> set cs \<Longrightarrow> tree_at h a t \<Longrightarrow> fuel_for t \<le> f \<Longrightarrow>
      \<exists>r. firstWithTag_p f h a g True = Some r) \<Longrightarrow>
   \<exists>r. firstWithTag_descend_p f h c g = Some r"
proof (induction cs arbitrary: c f)
  case Nil
  then obtain f' where "f = Suc f'" by (cases f) auto
  with Nil show ?case by (simp add: forest_at_Nil)
next
  case (Cons t ts)
  from Cons.prems(1) obtain a where
    a: "c = Some a" "tree_at h a t" "forest_at h (NextSibling (h a)) ts"
    by (auto simp: forest_at_Cons)
  from Cons.prems(2) obtain f' where
    f: "f = Suc f'" "fuel_for t \<le> f'" "fuel_for_list ts \<le> f'"
    by (cases f) auto
  have sub: "\<exists>r. firstWithTag_p f' h a g True = Some r"
    using Cons.prems(3) [of t a f'] a(2) f(2) by simp
  have rest: "\<exists>r. firstWithTag_descend_p f' h (NextSibling (h a)) g = Some r"
  proof (rule Cons.IH [OF a(3) f(3)])
    fix t' a' f''
    assume "t' \<in> set ts" "tree_at h a' t'" "fuel_for t' \<le> f''"
    then show "\<exists>r. firstWithTag_p f'' h a' g True = Some r"
      using Cons.prems(3) [of t' a' f''] by simp
  qed
  from a(1) f(1) sub rest show ?case by (auto split: option.splits)
qed

lemma firstWithTag_p_terminates:
  "tree_at h a t \<Longrightarrow> fuel_for t \<le> f \<Longrightarrow> \<exists>r. firstWithTag_p f h a g rec = Some r"
proof (induction t arbitrary: a f rec)
  case (Node ty d as cs)
  from Node.prems(1) have fo: "forest_at h (FirstChild (h a)) cs" by simp
  from Node.prems(2) obtain f' where f: "f = Suc f'" "fuel_for_list cs \<le> f'"
    by (cases f) auto
  have scan: "\<exists>r. firstWithTag_scan_p f' h (FirstChild (h a)) g = Some r"
    using firstWithTag_scan_p_terminates [OF fo f(2)] .
  have desc: "\<exists>r. firstWithTag_descend_p f' h (FirstChild (h a)) g = Some r"
  proof (rule firstWithTag_descend_p_terminates [OF fo f(2)])
    fix t a' f''
    assume "t \<in> set cs" "tree_at h a' t" "fuel_for t \<le> f''"
    then show "\<exists>r. firstWithTag_p f'' h a' g True = Some r" using Node.IH by blast
  qed
  from scan desc f(1) show ?case by (auto split: option.splits)
qed

lemma allWithTag_loop_p_terminates:
  "forest_at h c cs \<Longrightarrow> fuel_for_list cs \<le> f \<Longrightarrow>
   (\<And>t a f. t \<in> set cs \<Longrightarrow> tree_at h a t \<Longrightarrow> fuel_for t \<le> f \<Longrightarrow>
      \<exists>r. allWithTag_p f h a g True = Some r) \<Longrightarrow>
   \<exists>r. allWithTag_loop_p f h c g rec res = Some r"
proof (induction cs arbitrary: c f res)
  case Nil
  then obtain f' where "f = Suc f'" by (cases f) auto
  with Nil show ?case by (simp add: forest_at_Nil)
next
  case (Cons t ts)
  from Cons.prems(1) obtain a where
    a: "c = Some a" "tree_at h a t" "forest_at h (NextSibling (h a)) ts"
    by (auto simp: forest_at_Cons)
  from Cons.prems(2) obtain f' where
    f: "f = Suc f'" "fuel_for t \<le> f'" "fuel_for_list ts \<le> f'"
    by (cases f) auto
  have "\<exists>r. allWithTag_p f' h a g True = Some r"
    using Cons.prems(3) [of t a f'] a(2) f(2) by simp
  then obtain s where s: "allWithTag_p f' h a g True = Some s" by blast
  have rest: "\<exists>r. allWithTag_loop_p f' h (NextSibling (h a)) g rec res' = Some r" for res'
  proof (rule Cons.IH [OF a(3) f(3)])
    fix t' a' f''
    assume "t' \<in> set ts" "tree_at h a' t'" "fuel_for t' \<le> f''"
    then show "\<exists>r. allWithTag_p f'' h a' g True = Some r"
      using Cons.prems(3) [of t' a' f''] by simp
  qed
  show ?case
  proof (cases rec)
    case True
    from rest [of "(if node_Type (h a) = ElementNode \<and> node_Data (h a) = g
                    then res @ [a] else res) @ s"]
    show ?thesis using a(1) f(1) s True by (simp add: Let_def)
  next
    case False
    from rest [of "if node_Type (h a) = ElementNode \<and> node_Data (h a) = g
                   then res @ [a] else res"]
    show ?thesis using a(1) f(1) False by (simp add: Let_def)
  qed
qed

lemma allWithTag_p_terminates:
  "tree_at h a t \<Longrightarrow> fuel_for t \<le> f \<Longrightarrow> \<exists>r. allWithTag_p f h a g rec = Some r"
proof (induction t arbitrary: a f rec)
  case (Node ty d as cs)
  from Node.prems(1) have fo: "forest_at h (FirstChild (h a)) cs" by simp
  from Node.prems(2) obtain f' where f: "f = Suc f'" "fuel_for_list cs \<le> f'"
    by (cases f) auto
  have "\<exists>r. allWithTag_loop_p f' h (FirstChild (h a)) g rec [] = Some r"
  proof (rule allWithTag_loop_p_terminates [OF fo f(2)])
    fix t a' f''
    assume "t \<in> set cs" "tree_at h a' t" "fuel_for t \<le> f''"
    then show "\<exists>r. allWithTag_p f'' h a' g True = Some r" using Node.IH by blast
  qed
  with f(1) show ?case by simp
qed

subsection \<open>A cyclic structure exhausts every budget\<close>

lemma cyclic_heap_simps:
  "node_Type (cyclic_heap a) = ElementNode"
  "node_Attr (cyclic_heap a) = []"
  "FirstChild (cyclic_heap a) = Some a"
  "NextSibling (cyclic_heap a) = None"
  by (simp_all add: cyclic_heap_def)

lemma firstWithId_scan_p_cyclic:
  "firstWithId_scan_p f cyclic_heap c ''x'' \<noteq> Some (Some b)"
proof (induction f arbitrary: c)
  case 0
  show ?case by simp
next
  case (Suc f)
  show ?case
  proof (cases c)
    case None
    then show ?thesis by simp
  next
    case (Some a)
    with Suc [of None] show ?thesis by (simp add: cyclic_heap_simps)
  qed
qed

lemma firstWithId_p_cyclic:
  "firstWithId_p f cyclic_heap a ''x'' True = None
   \<and> firstWithId_descend_p f cyclic_heap (Some a) ''x'' = None"
proof (induction f)
  case 0
  show ?case by simp
next
  case (Suc f)
  have d: "firstWithId_descend_p (Suc f) cyclic_heap (Some a) ''x'' = None"
    using Suc by (simp add: cyclic_heap_simps)
  have "firstWithId_p (Suc f) cyclic_heap a ''x'' True = None"
  proof (cases "firstWithId_scan_p f cyclic_heap (Some a) ''x''")
    case None
    then show ?thesis by (simp add: cyclic_heap_simps)
  next
    case (Some r)
    with firstWithId_scan_p_cyclic [of f "Some a"] have "r = None" by (cases r) auto
    with Some Suc show ?thesis by (simp add: cyclic_heap_simps)
  qed
  with d show ?case by simp
qed

subsection \<open>The claim\<close>

text \<open>
  C9. When the linked structure below the queried node is a finite acyclic tree, every
  traversal and both dispatchers return, in shallow and in recursive mode: a step budget
  of one step per node and per end of a sibling chain is enough for each of them.
\<close>

theorem traversals_terminate:
  assumes "tree_at h a t" and "fuel_for t \<le> f"
  shows "(\<exists>r. firstWithId_p f h a i rec = Some r)
    \<and> (\<exists>r. firstWithClassName_p f h a c rec = Some r)
    \<and> (\<exists>r. firstWithTag_p f h a g rec = Some r)
    \<and> (\<exists>r. allWithClassName_p f h a c rec = Some r)
    \<and> (\<exists>r. allWithTag_p f h a g rec = Some r)
    \<and> (\<exists>r. SelectAll_p f h a s = Some r)
    \<and> (\<exists>r. SelectFirst_p f h a s = Some r)"
proof -
  note id = firstWithId_p_terminates [OF assms]
  note cl = firstWithClassName_p_terminates [OF assms]
  note tg = firstWithTag_p_terminates [OF assms]
  note acl = allWithClassName_p_terminates [OF assms]
  note atg = allWithTag_p_terminates [OF assms]
  have all: "\<exists>r. SelectAll_p f h a s = Some r"
    using id [of "Id s" "Recursive s"] acl [of "ClassName s" "Recursive s"]
      atg [of "Tag s" "Recursive s"]
    by (auto simp: SelectAll_def SelectAll_p_def)
  have first: "\<exists>r. SelectFirst_p f h a s = Some r"
    using id [of "Id s" "Recursive s"] cl [of "ClassName s" "Recursive s"]
      tg [of "Tag s" "Recursive s"]
    by (auto simp: SelectFirst_p_def)
  from id cl tg acl atg all first show ?thesis by blast
qed

theorem traversals_terminate_witness:
  "tree_at linked_example 0 linked_example_tree
   \<and> fuel_for linked_example_tree \<le> 11
   \<and> (\<exists>r. firstWithId_p 11 linked_example 0 ''x'' True = Some r)
   \<and> (\<exists>r. firstWithClassName_p 11 linked_example 0 ''c'' True = Some r)
   \<and> (\<exists>r. firstWithTag_p 11 linked_example 0 ''span'' True = Some r)
   \<and> (\<exists>r. allWithClassName_p 11 linked_example 0 ''c'' True = Some r)
   \<and> (\<exists>r. allWithTag_p 11 linked_example 0 ''span'' True = Some r)
   \<and> (\<exists>r. SelectAll_p 11 linked_example 0
          \<lparr>Id = [], ClassName = ''c'', Tag = [], Recursive = True\<rparr> = Some r)
   \<and> (\<exists>r. SelectFirst_p 11 linked_example 0
          \<lparr>Id = [], ClassName = ''c'', Tag = [], Recursive = True\<rparr> = Some r)"
proof -
  have 1: "tree_at linked_example 0 linked_example_tree"
    by (simp add: linked_example_def linked_example_tree_def)
  have 2: "fuel_for linked_example_tree \<le> 11"
    by (simp add: linked_example_tree_def)
  from traversals_terminate [OF 1 2, of "''x''" True "''c''" "''span''"
      "\<lparr>Id = [], ClassName = ''c'', Tag = [], Recursive = True\<rparr>"] 1 2
  show ?thesis by blast
qed


section \<open>The linked traversals agree with the traversals of the tree\<close>

lemma tree_at_fields:
  "tree_at h a t \<Longrightarrow>
     node_Type (h a) = Type t \<and> node_Data (h a) = Data t \<and> node_Attr (h a) = Attrs t
       \<and> forest_at h (FirstChild (h a)) (children t)"
  by (cases t) simp

lemma addr_at_nonempty:
  "p \<noteq> [] \<Longrightarrow> addr_at h a p = addr_from h (FirstChild (h a)) 0 p"
  by (cases p) (simp_all add: addr_from_def)

lemma addr_from_here: "addr_from h (Some a) k (k # q) = addr_at h a q"
  by (simp add: addr_from_def)

lemma addr_from_next:
  "addr_from h (Some a) k (Suc (k + j) # q)
     = addr_from h (NextSibling (h a)) (Suc k) (Suc (k + j) # q)"
  by (simp add: addr_from_def)

lemma opt_refines_Some:
  assumes "opt_refines res ad (Some p)"
  shows "\<exists>x. res = Some (Some x) \<and> ad p = Some x"
proof -
  from assms obtain y where y: "res = Some y" "map_option Some y = Some (ad p)"
    by (auto simp: opt_refines_def split: option.splits)
  from y(2) obtain z where "y = Some z" "ad p = Some z" by (cases y) auto
  with y(1) show ?thesis by simp
qed

lemma opt_refines_None: "opt_refines res ad None \<Longrightarrow> res = Some None"
  by (auto simp: opt_refines_def split: option.splits)

subsection \<open>By id\<close>

lemma firstWithId_scan_refines:
  "forest_at h c cs \<Longrightarrow> fuel_for_list cs \<le> f \<Longrightarrow>
   opt_refines (firstWithId_scan_p f h c i) (addr_from h c k) (firstWithId_scan cs k i)"
proof (induction cs arbitrary: c f k)
  case Nil
  then obtain f' where "f = Suc f'" by (cases f) auto
  with Nil show ?case by (simp add: forest_at_Nil opt_refines_def)
next
  case (Cons t ts)
  from Cons.prems(1) obtain a where
    a: "c = Some a" "tree_at h a t" "forest_at h (NextSibling (h a)) ts"
    by (auto simp: forest_at_Cons)
  from Cons.prems(2) obtain f' where
    f: "f = Suc f'" "fuel_for t \<le> f'" "fuel_for_list ts \<le> f'"
    by (cases f) auto
  note fld = tree_at_fields [OF a(2)]
  show ?case
  proof (cases "Type t = ElementNode \<and> Attr t ''id'' = i")
    case True
    with a(1) f(1) fld show ?thesis
      by (simp add: opt_refines_def addr_from_here Attr_def)
  next
    case False
    have IH: "opt_refines (firstWithId_scan_p f' h (NextSibling (h a)) i)
        (addr_from h (NextSibling (h a)) (Suc k)) (firstWithId_scan ts (Suc k) i)"
      using Cons.IH [OF a(3) f(3)] .
    have shift: "map_option (addr_from h (Some a) k) (firstWithId_scan ts (Suc k) i)
        = map_option (addr_from h (NextSibling (h a)) (Suc k)) (firstWithId_scan ts (Suc k) i)"
    proof (cases "firstWithId_scan ts (Suc k) i")
      case None
      then show ?thesis by simp
    next
      case (Some p)
      from firstWithId_scan_Some [OF this] obtain j where "p = [Suc k + j]" by blast
      with Some show ?thesis by (simp add: addr_from_next)
    qed
    have 1: "firstWithId_scan_p f h c i = firstWithId_scan_p f' h (NextSibling (h a)) i"
      using False a(1) f(1) fld by (auto simp: Attr_def)
    have 2: "firstWithId_scan (t # ts) k i = firstWithId_scan ts (Suc k) i"
      using False by auto
    show ?thesis unfolding 1 2 unfolding a(1) opt_refines_def shift
      using IH [unfolded opt_refines_def] .
  qed
qed

lemma firstWithId_descend_refines:
  "forest_at h c cs \<Longrightarrow> fuel_for_list cs \<le> f \<Longrightarrow>
   (\<And>t a f. t \<in> set cs \<Longrightarrow> tree_at h a t \<Longrightarrow> fuel_for t \<le> f \<Longrightarrow>
      opt_refines (firstWithId_p f h a i True) (addr_at h a) (firstWithId t i True)) \<Longrightarrow>
   opt_refines (firstWithId_descend_p f h c i) (addr_from h c k) (firstWithId_descend cs k i)"
proof (induction cs arbitrary: c f k)
  case Nil
  then obtain f' where "f = Suc f'" by (cases f) auto
  with Nil show ?case by (simp add: forest_at_Nil opt_refines_def)
next
  case (Cons t ts)
  from Cons.prems(1) obtain a where
    a: "c = Some a" "tree_at h a t" "forest_at h (NextSibling (h a)) ts"
    by (auto simp: forest_at_Cons)
  from Cons.prems(2) obtain f' where
    f: "f = Suc f'" "fuel_for t \<le> f'" "fuel_for_list ts \<le> f'"
    by (cases f) auto
  note fld = tree_at_fields [OF a(2)]
  have sub: "opt_refines (firstWithId_p f' h a i True) (addr_at h a) (firstWithId t i True)"
    using Cons.prems(3) [of t a f'] a(2) f(2) by simp
  have IH: "opt_refines (firstWithId_descend_p f' h (NextSibling (h a)) i)
      (addr_from h (NextSibling (h a)) (Suc k)) (firstWithId_descend ts (Suc k) i)"
  proof (rule Cons.IH [OF a(3) f(3)])
    fix t' a' f''
    assume "t' \<in> set ts" "tree_at h a' t'" "fuel_for t' \<le> f''"
    then show "opt_refines (firstWithId_p f'' h a' i True) (addr_at h a') (firstWithId t' i True)"
      using Cons.prems(3) [of t' a' f''] by simp
  qed
  have shift: "map_option (addr_from h (Some a) k) (firstWithId_descend ts (Suc k) i)
      = map_option (addr_from h (NextSibling (h a)) (Suc k)) (firstWithId_descend ts (Suc k) i)"
  proof (cases "firstWithId_descend ts (Suc k) i")
    case None
    then show ?thesis by simp
  next
    case (Some p)
    from firstWithId_descend_Some [OF this] obtain j el where "p = (Suc k + j) # el" by blast
    with Some show ?thesis by (simp add: addr_from_next)
  qed
  have skip: "opt_refines (firstWithId_descend_p f' h (NextSibling (h a)) i)
      (addr_from h (Some a) k) (firstWithId_descend ts (Suc k) i)"
    unfolding opt_refines_def shift using IH [unfolded opt_refines_def] .
  show ?case
  proof (cases "Type t = ElementNode")
    case False
    have 1: "firstWithId_descend_p f h c i = firstWithId_descend_p f' h (NextSibling (h a)) i"
      using False a(1) f(1) fld by simp
    have 2: "firstWithId_descend (t # ts) k i = firstWithId_descend ts (Suc k) i"
      using False by simp
    from skip show ?thesis unfolding 1 2 unfolding a(1) .
  next
    case True
    show ?thesis
    proof (cases "firstWithId t i True")
      case None
      with sub have "firstWithId_p f' h a i True = Some None"
        by (simp add: opt_refines_None)
      then have 1: "firstWithId_descend_p f h c i
          = firstWithId_descend_p f' h (NextSibling (h a)) i"
        using True a(1) f(1) fld by simp
      have 2: "firstWithId_descend (t # ts) k i = firstWithId_descend ts (Suc k) i"
        using True None by simp
      from skip show ?thesis unfolding 1 2 unfolding a(1) .
    next
      case (Some el)
      from opt_refines_Some [OF sub [unfolded Some]] obtain x where
        x: "firstWithId_p f' h a i True = Some (Some x)" "addr_at h a el = Some x"
        by blast
      have 1: "firstWithId_descend_p f h c i = Some (Some x)"
        using x(1) True a(1) f(1) fld by simp
      have 2: "firstWithId_descend (t # ts) k i = Some (k # el)"
        using True Some by simp
      show ?thesis unfolding 1 2 unfolding a(1) using x(2) by (simp add: opt_refines_def addr_from_here)
    qed
  qed
qed

lemma firstWithId_refines:
  "tree_at h a t \<Longrightarrow> fuel_for t \<le> f \<Longrightarrow>
   opt_refines (firstWithId_p f h a i rec) (addr_at h a) (firstWithId t i rec)"
proof (induction t arbitrary: a f rec)
  case (Node ty d as cs)
  let ?fc = "FirstChild (h a)"
  from Node.prems(1) have fo: "forest_at h ?fc cs" by simp
  from Node.prems(2) obtain f' where f: "f = Suc f'" "fuel_for_list cs \<le> f'"
    by (cases f) auto
  have scan: "opt_refines (firstWithId_scan_p f' h ?fc i) (addr_from h ?fc 0)
      (firstWithId_scan cs 0 i)"
    using firstWithId_scan_refines [OF fo f(2)] .
  have desc: "opt_refines (firstWithId_descend_p f' h ?fc i) (addr_from h ?fc 0)
      (firstWithId_descend cs 0 i)"
  proof (rule firstWithId_descend_refines [OF fo f(2)])
    fix t a' f''
    assume "t \<in> set cs" "tree_at h a' t" "fuel_for t \<le> f''"
    then show "opt_refines (firstWithId_p f'' h a' i True) (addr_at h a') (firstWithId t i True)"
      using Node.IH by blast
  qed
  show ?case
  proof (cases "firstWithId_scan cs 0 i")
    case (Some p)
    from firstWithId_scan_Some [OF this] obtain j where p: "p = [j]" by auto
    from opt_refines_Some [OF scan [unfolded Some]] obtain x where
      x: "firstWithId_scan_p f' h ?fc i = Some (Some x)" "addr_from h ?fc 0 p = Some x"
      by blast
    have 1: "firstWithId_p f h a i rec = Some (Some x)" using x(1) f(1) by simp
    have 2: "firstWithId (Node ty d as cs) i rec = Some p" using Some by simp
    have 3: "addr_at h a p = Some x" using x(2) p by (simp add: addr_from_def)
    show ?thesis unfolding 1 2 using 3 by (simp add: opt_refines_def)
  next
    case None
    with scan have s: "firstWithId_scan_p f' h ?fc i = Some None"
      by (simp add: opt_refines_None)
    show ?thesis
    proof (cases rec)
      case False
      have 1: "firstWithId_p f h a i rec = Some None" using s f(1) False by simp
      have 2: "firstWithId (Node ty d as cs) i rec = None" using None False by simp
      show ?thesis unfolding 1 2 by (simp add: opt_refines_def)
    next
      case True
      have 1: "firstWithId_p f h a i rec = firstWithId_descend_p f' h ?fc i"
        using s f(1) True by simp
      have 2: "firstWithId (Node ty d as cs) i rec = firstWithId_descend cs 0 i"
        using None True by simp
      have 3: "map_option (addr_at h a) (firstWithId_descend cs 0 i)
          = map_option (addr_from h ?fc 0) (firstWithId_descend cs 0 i)"
      proof (cases "firstWithId_descend cs 0 i")
        case None
        then show ?thesis by simp
      next
        case (Some p)
        from firstWithId_descend_Some [OF this] obtain j el where "p = j # el" by auto
        with Some show ?thesis by (simp add: addr_from_def)
      qed
      show ?thesis unfolding 1 2 opt_refines_def 3 using desc [unfolded opt_refines_def] .
    qed
  qed
qed

subsection \<open>By tag, all\<close>

lemma allWithTag_loop_head:
  "p \<in> set (allWithTag_loop cs k g rec) \<Longrightarrow> \<exists>j q. p = (k + j) # q"
proof (induction cs arbitrary: k)
  case Nil
  then show ?case by simp
next
  case (Cons t ts)
  from Cons.prems consider (here) "p = [k]" | (below) "p \<in> (#) k ` set (allWithTag t g True)"
    | (later) "p \<in> set (allWithTag_loop ts (Suc k) g rec)"
    by (auto split: if_splits)
  then show ?case
  proof cases
    case here
    then have "p = (k + 0) # []" by simp
    then show ?thesis by blast
  next
    case below
    then obtain q where "p = (k + 0) # q" by auto
    then show ?thesis by blast
  next
    case later
    from Cons.IH [OF this] obtain j q where "p = (Suc k + j) # q" by blast
    then have "p = (k + Suc j) # q" by simp
    then show ?thesis by blast
  qed
qed

lemma allWithTag_loop_refines:
  "forest_at h c cs \<Longrightarrow> fuel_for_list cs \<le> f \<Longrightarrow>
   (\<And>t a f. t \<in> set cs \<Longrightarrow> tree_at h a t \<Longrightarrow> fuel_for t \<le> f \<Longrightarrow>
      list_refines (allWithTag_p f h a g True) (addr_at h a) (allWithTag t g True)) \<Longrightarrow>
   \<exists>xs. allWithTag_loop_p f h c g rec res = Some (res @ xs)
      \<and> map Some xs = map (addr_from h c k) (allWithTag_loop cs k g rec)"
proof (induction cs arbitrary: c f k res)
  case Nil
  then obtain f' where "f = Suc f'" by (cases f) auto
  with Nil show ?case by (simp add: forest_at_Nil)
next
  case (Cons t ts)
  from Cons.prems(1) obtain a where
    a: "c = Some a" "tree_at h a t" "forest_at h (NextSibling (h a)) ts"
    by (auto simp: forest_at_Cons)
  from Cons.prems(2) obtain f' where
    f: "f = Suc f'" "fuel_for t \<le> f'" "fuel_for_list ts \<le> f'"
    by (cases f) auto
  note fld = tree_at_fields [OF a(2)]
  let ?nx = "NextSibling (h a)"
  let ?hit = "Type t = ElementNode \<and> Data t = g"
  have IH: "\<exists>xs. allWithTag_loop_p f' h ?nx g rec res' = Some (res' @ xs)
      \<and> map Some xs = map (addr_from h ?nx (Suc k)) (allWithTag_loop ts (Suc k) g rec)" for res'
  proof (rule Cons.IH [OF a(3) f(3)])
    fix t' a' f''
    assume "t' \<in> set ts" "tree_at h a' t'" "fuel_for t' \<le> f''"
    then show "list_refines (allWithTag_p f'' h a' g True) (addr_at h a') (allWithTag t' g True)"
      using Cons.prems(3) [of t' a' f''] by simp
  qed
  have shift: "map (addr_from h (Some a) k) (allWithTag_loop ts (Suc k) g rec)
      = map (addr_from h ?nx (Suc k)) (allWithTag_loop ts (Suc k) g rec)"
  proof (rule map_cong [OF refl])
    fix p
    assume "p \<in> set (allWithTag_loop ts (Suc k) g rec)"
    from allWithTag_loop_head [OF this] obtain j q where "p = (Suc k + j) # q" by blast
    then show "addr_from h (Some a) k p = addr_from h ?nx (Suc k) p"
      by (simp add: addr_from_next)
  qed
  have below: "map (addr_from h (Some a) k) (map ((#) k) ps) = map (addr_at h a) ps" for ps
    by (simp add: addr_from_here comp_def)
  show ?case
  proof (cases rec)
    case True
    from Cons.prems(3) [of t a f'] a(2) f(2) obtain s where
      s: "allWithTag_p f' h a g True = Some s" "map Some s = map (addr_at h a) (allWithTag t g True)"
      by (auto simp: list_refines_def split: option.splits)
    from IH [of "(if ?hit then res @ [a] else res) @ s"] obtain xs where
      xs: "allWithTag_loop_p f' h ?nx g rec ((if ?hit then res @ [a] else res) @ s)
            = Some (((if ?hit then res @ [a] else res) @ s) @ xs)"
          "map Some xs = map (addr_from h ?nx (Suc k)) (allWithTag_loop ts (Suc k) g rec)"
      by blast
    have run: "allWithTag_loop_p f h c g rec res
        = Some (res @ ((if ?hit then [a] else []) @ s @ xs))"
      using a(1) f(1) fld True s(1) xs(1) by (auto simp: Let_def)
    have "map Some ((if ?hit then [a] else []) @ s @ xs)
        = map (addr_from h c k) (allWithTag_loop (t # ts) k g rec)"
      using s(2) xs(2) shift a(1) True by (simp add: below addr_from_here)
    with run show ?thesis by blast
  next
    case False
    from IH [of "if ?hit then res @ [a] else res"] obtain xs where
      xs: "allWithTag_loop_p f' h ?nx g rec (if ?hit then res @ [a] else res)
            = Some ((if ?hit then res @ [a] else res) @ xs)"
          "map Some xs = map (addr_from h ?nx (Suc k)) (allWithTag_loop ts (Suc k) g rec)"
      by blast
    have run: "allWithTag_loop_p f h c g rec res
        = Some (res @ ((if ?hit then [a] else []) @ xs))"
      using a(1) f(1) fld False xs(1) by (auto simp: Let_def)
    have "map Some ((if ?hit then [a] else []) @ xs)
        = map (addr_from h c k) (allWithTag_loop (t # ts) k g rec)"
      using xs(2) shift a(1) False by (simp add: addr_from_here)
    with run show ?thesis by blast
  qed
qed

lemma allWithTag_refines:
  "tree_at h a t \<Longrightarrow> fuel_for t \<le> f \<Longrightarrow>
   list_refines (allWithTag_p f h a g rec) (addr_at h a) (allWithTag t g rec)"
proof (induction t arbitrary: a f rec)
  case (Node ty d as cs)
  let ?fc = "FirstChild (h a)"
  from Node.prems(1) have fo: "forest_at h ?fc cs" by simp
  from Node.prems(2) obtain f' where f: "f = Suc f'" "fuel_for_list cs \<le> f'"
    by (cases f) auto
  have "\<exists>xs. allWithTag_loop_p f' h ?fc g rec [] = Some ([] @ xs)
      \<and> map Some xs = map (addr_from h ?fc 0) (allWithTag_loop cs 0 g rec)"
  proof (rule allWithTag_loop_refines [OF fo f(2)])
    fix t a' f''
    assume "t \<in> set cs" "tree_at h a' t" "fuel_for t \<le> f''"
    then show "list_refines (allWithTag_p f'' h a' g True) (addr_at h a') (allWithTag t g True)"
      using Node.IH by blast
  qed
  then obtain xs where
    xs: "allWithTag_loop_p f' h ?fc g rec [] = Some xs"
        "map Some xs = map (addr_from h ?fc 0) (allWithTag_loop cs 0 g rec)"
    by auto
  have "map (addr_at h a) (allWithTag_loop cs 0 g rec)
      = map (addr_from h ?fc 0) (allWithTag_loop cs 0 g rec)"
  proof (rule map_cong [OF refl])
    fix p
    assume "p \<in> set (allWithTag_loop cs 0 g rec)"
    from allWithTag_loop_head [OF this] have "p \<noteq> []" by auto
    then show "addr_at h a p = addr_from h ?fc 0 p" by (rule addr_at_nonempty)
  qed
  with xs f(1) show ?case by (simp add: list_refines_def)
qed


subsection \<open>By class name, first\<close>

lemma firstWithClassName_scan_head: "firstWithClassName_scan cs k cl = Some p \<Longrightarrow> \<exists>j. p = [k + j]"
proof (induction cs arbitrary: k)
  case Nil
  then show ?case by simp
next
  case (Cons t ts)
  show ?case
  proof (cases "HasClass t cl")
    case True
    with Cons.prems have "p = [k + 0]" by simp
    then show ?thesis by blast
  next
    case False
    with Cons.prems have "firstWithClassName_scan ts (Suc k) cl = Some p" by auto
    from Cons.IH [OF this] obtain j where "p = [Suc k + j]" by blast
    then have "p = [k + Suc j]" by simp
    then show ?thesis by blast
  qed
qed

lemma firstWithClassName_descend_head:
  "firstWithClassName_descend cs k cl = Some p \<Longrightarrow> \<exists>j q. p = (k + j) # q"
proof (induction cs arbitrary: k)
  case Nil
  then show ?case by simp
next
  case (Cons t ts)
  show ?case
  proof (cases "firstWithClassName t cl True")
    case (Some n)
    with Cons.prems have "p = (k + 0) # n" by simp
    then show ?thesis by blast
  next
    case None
    with Cons.prems have "firstWithClassName_descend ts (Suc k) cl = Some p" by simp
    from Cons.IH [OF this] obtain j q where "p = (Suc k + j) # q" by blast
    then have "p = (k + Suc j) # q" by simp
    then show ?thesis by blast
  qed
qed

lemma firstWithClassName_scan_refines:
  "forest_at h c cs \<Longrightarrow> fuel_for_list cs \<le> f \<Longrightarrow>
   opt_refines (firstWithClassName_scan_p f h c cl) (addr_from h c k) (firstWithClassName_scan cs k cl)"
proof (induction cs arbitrary: c f k)
  case Nil
  then obtain f' where "f = Suc f'" by (cases f) auto
  with Nil show ?case by (simp add: forest_at_Nil opt_refines_def)
next
  case (Cons t ts)
  from Cons.prems(1) obtain a where
    a: "c = Some a" "tree_at h a t" "forest_at h (NextSibling (h a)) ts"
    by (auto simp: forest_at_Cons)
  from Cons.prems(2) obtain f' where
    f: "f = Suc f'" "fuel_for t \<le> f'" "fuel_for_list ts \<le> f'"
    by (cases f) auto
  note fld = tree_at_fields [OF a(2)]
  show ?case
  proof (cases "HasClass t cl")
    case True
    with a(1) f(1) fld show ?thesis
      by (simp add: opt_refines_def addr_from_here HasClass_def)
  next
    case False
    have IH: "opt_refines (firstWithClassName_scan_p f' h (NextSibling (h a)) cl)
        (addr_from h (NextSibling (h a)) (Suc k)) (firstWithClassName_scan ts (Suc k) cl)"
      using Cons.IH [OF a(3) f(3)] .
    have shift: "map_option (addr_from h (Some a) k) (firstWithClassName_scan ts (Suc k) cl)
        = map_option (addr_from h (NextSibling (h a)) (Suc k)) (firstWithClassName_scan ts (Suc k) cl)"
    proof (cases "firstWithClassName_scan ts (Suc k) cl")
      case None
      then show ?thesis by simp
    next
      case (Some p)
      from firstWithClassName_scan_head [OF this] obtain j where "p = [Suc k + j]" by blast
      with Some show ?thesis by (simp add: addr_from_next)
    qed
    have 1: "firstWithClassName_scan_p f h c cl = firstWithClassName_scan_p f' h (NextSibling (h a)) cl"
      using False a(1) f(1) fld by (auto simp: HasClass_def)
    have 2: "firstWithClassName_scan (t # ts) k cl = firstWithClassName_scan ts (Suc k) cl"
      using False by auto
    show ?thesis unfolding 1 2 unfolding a(1) opt_refines_def shift
      using IH [unfolded opt_refines_def] .
  qed
qed

lemma firstWithClassName_descend_refines:
  "forest_at h c cs \<Longrightarrow> fuel_for_list cs \<le> f \<Longrightarrow>
   (\<And>t a f. t \<in> set cs \<Longrightarrow> tree_at h a t \<Longrightarrow> fuel_for t \<le> f \<Longrightarrow>
      opt_refines (firstWithClassName_p f h a cl True) (addr_at h a) (firstWithClassName t cl True)) \<Longrightarrow>
   opt_refines (firstWithClassName_descend_p f h c cl) (addr_from h c k) (firstWithClassName_descend cs k cl)"
proof (induction cs arbitrary: c f k)
  case Nil
  then obtain f' where "f = Suc f'" by (cases f) auto
  with Nil show ?case by (simp add: forest_at_Nil opt_refines_def)
next
  case (Cons t ts)
  from Cons.prems(1) obtain a where
    a: "c = Some a" "tree_at h a t" "forest_at h (NextSibling (h a)) ts"
    by (auto simp: forest_at_Cons)
  from Cons.prems(2) obtain f' where
    f: "f = Suc f'" "fuel_for t \<le> f'" "fuel_for_list ts \<le> f'"
    by (cases f) auto
  have sub: "opt_refines (firstWithClassName_p f' h a cl True) (addr_at h a) (firstWithClassName t cl True)"
    using Cons.prems(3) [of t a f'] a(2) f(2) by simp
  have IH: "opt_refines (firstWithClassName_descend_p f' h (NextSibling (h a)) cl)
      (addr_from h (NextSibling (h a)) (Suc k)) (firstWithClassName_descend ts (Suc k) cl)"
  proof (rule Cons.IH [OF a(3) f(3)])
    fix t' a' f''
    assume "t' \<in> set ts" "tree_at h a' t'" "fuel_for t' \<le> f''"
    then show "opt_refines (firstWithClassName_p f'' h a' cl True) (addr_at h a') (firstWithClassName t' cl True)"
      using Cons.prems(3) [of t' a' f''] by simp
  qed
  have shift: "map_option (addr_from h (Some a) k) (firstWithClassName_descend ts (Suc k) cl)
      = map_option (addr_from h (NextSibling (h a)) (Suc k)) (firstWithClassName_descend ts (Suc k) cl)"
  proof (cases "firstWithClassName_descend ts (Suc k) cl")
    case None
    then show ?thesis by simp
  next
    case (Some p)
    from firstWithClassName_descend_head [OF this] obtain j el where "p = (Suc k + j) # el" by blast
    with Some show ?thesis by (simp add: addr_from_next)
  qed
  have skip: "opt_refines (firstWithClassName_descend_p f' h (NextSibling (h a)) cl)
      (addr_from h (Some a) k) (firstWithClassName_descend ts (Suc k) cl)"
    unfolding opt_refines_def shift using IH [unfolded opt_refines_def] .
  show ?case
  proof (cases "firstWithClassName t cl True")
    case None
    with sub have "firstWithClassName_p f' h a cl True = Some None"
      by (simp add: opt_refines_None)
    then have 1: "firstWithClassName_descend_p f h c cl
        = firstWithClassName_descend_p f' h (NextSibling (h a)) cl"
      using a(1) f(1) by simp
    have 2: "firstWithClassName_descend (t # ts) k cl = firstWithClassName_descend ts (Suc k) cl"
      using None by simp
    from skip show ?thesis unfolding 1 2 unfolding a(1) .
  next
    case (Some el)
    from opt_refines_Some [OF sub [unfolded Some]] obtain y where
      y: "firstWithClassName_p f' h a cl True = Some (Some y)" "addr_at h a el = Some y"
      by blast
    have 1: "firstWithClassName_descend_p f h c cl = Some (Some y)"
      using y(1) a(1) f(1) by simp
    have 2: "firstWithClassName_descend (t # ts) k cl = Some (k # el)"
      using Some by simp
    show ?thesis unfolding 1 2 unfolding a(1) using y(2) by (simp add: opt_refines_def addr_from_here)
  qed
qed

lemma firstWithClassName_refines:
  "tree_at h a t \<Longrightarrow> fuel_for t \<le> f \<Longrightarrow>
   opt_refines (firstWithClassName_p f h a cl rec) (addr_at h a) (firstWithClassName t cl rec)"
proof (induction t arbitrary: a f rec)
  case (Node ty d as cs)
  let ?fc = "FirstChild (h a)"
  from Node.prems(1) have fo: "forest_at h ?fc cs" by simp
  from Node.prems(2) obtain f' where f: "f = Suc f'" "fuel_for_list cs \<le> f'"
    by (cases f) auto
  have scan: "opt_refines (firstWithClassName_scan_p f' h ?fc cl) (addr_from h ?fc 0)
      (firstWithClassName_scan cs 0 cl)"
    using firstWithClassName_scan_refines [OF fo f(2)] .
  have desc: "opt_refines (firstWithClassName_descend_p f' h ?fc cl) (addr_from h ?fc 0)
      (firstWithClassName_descend cs 0 cl)"
  proof (rule firstWithClassName_descend_refines [OF fo f(2)])
    fix t a' f''
    assume "t \<in> set cs" "tree_at h a' t" "fuel_for t \<le> f''"
    then show "opt_refines (firstWithClassName_p f'' h a' cl True) (addr_at h a') (firstWithClassName t cl True)"
      using Node.IH by blast
  qed
  show ?case
  proof (cases "firstWithClassName_scan cs 0 cl")
    case (Some p)
    from firstWithClassName_scan_head [OF this] obtain j where p: "p = [j]" by auto
    from opt_refines_Some [OF scan [unfolded Some]] obtain y where
      y: "firstWithClassName_scan_p f' h ?fc cl = Some (Some y)" "addr_from h ?fc 0 p = Some y"
      by blast
    have 1: "firstWithClassName_p f h a cl rec = Some (Some y)" using y(1) f(1) by simp
    have 2: "firstWithClassName (Node ty d as cs) cl rec = Some p" using Some by simp
    have 3: "addr_at h a p = Some y" using y(2) p by (simp add: addr_from_def)
    show ?thesis unfolding 1 2 using 3 by (simp add: opt_refines_def)
  next
    case None
    with scan have s: "firstWithClassName_scan_p f' h ?fc cl = Some None"
      by (simp add: opt_refines_None)
    show ?thesis
    proof (cases rec)
      case False
      have 1: "firstWithClassName_p f h a cl rec = Some None" using s f(1) False by simp
      have 2: "firstWithClassName (Node ty d as cs) cl rec = None" using None False by simp
      show ?thesis unfolding 1 2 by (simp add: opt_refines_def)
    next
      case True
      have 1: "firstWithClassName_p f h a cl rec = firstWithClassName_descend_p f' h ?fc cl"
        using s f(1) True by simp
      have 2: "firstWithClassName (Node ty d as cs) cl rec = firstWithClassName_descend cs 0 cl"
        using None True by simp
      have 3: "map_option (addr_at h a) (firstWithClassName_descend cs 0 cl)
          = map_option (addr_from h ?fc 0) (firstWithClassName_descend cs 0 cl)"
      proof (cases "firstWithClassName_descend cs 0 cl")
        case None
        then show ?thesis by simp
      next
        case (Some p)
        from firstWithClassName_descend_head [OF this] obtain j el where "p = j # el" by auto
        with Some show ?thesis by (simp add: addr_from_def)
      qed
      show ?thesis unfolding 1 2 opt_refines_def 3 using desc [unfolded opt_refines_def] .
    qed
  qed
qed

subsection \<open>By tag, first\<close>

lemma firstWithTag_scan_head: "firstWithTag_scan cs k g = Some p \<Longrightarrow> \<exists>j. p = [k + j]"
proof (induction cs arbitrary: k)
  case Nil
  then show ?case by simp
next
  case (Cons t ts)
  show ?case
  proof (cases "Type t = ElementNode \<and> Data t = g")
    case True
    with Cons.prems have "p = [k + 0]" by simp
    then show ?thesis by blast
  next
    case False
    with Cons.prems have "firstWithTag_scan ts (Suc k) g = Some p" by auto
    from Cons.IH [OF this] obtain j where "p = [Suc k + j]" by blast
    then have "p = [k + Suc j]" by simp
    then show ?thesis by blast
  qed
qed

lemma firstWithTag_descend_head:
  "firstWithTag_descend cs k g = Some p \<Longrightarrow> \<exists>j q. p = (k + j) # q"
proof (induction cs arbitrary: k)
  case Nil
  then show ?case by simp
next
  case (Cons t ts)
  show ?case
  proof (cases "firstWithTag t g True")
    case (Some n)
    with Cons.prems have "p = (k + 0) # n" by simp
    then show ?thesis by blast
  next
    case None
    with Cons.prems have "firstWithTag_descend ts (Suc k) g = Some p" by simp
    from Cons.IH [OF this] obtain j q where "p = (Suc k + j) # q" by blast
    then have "p = (k + Suc j) # q" by simp
    then show ?thesis by blast
  qed
qed

lemma firstWithTag_scan_refines:
  "forest_at h c cs \<Longrightarrow> fuel_for_list cs \<le> f \<Longrightarrow>
   opt_refines (firstWithTag_scan_p f h c g) (addr_from h c k) (firstWithTag_scan cs k g)"
proof (induction cs arbitrary: c f k)
  case Nil
  then obtain f' where "f = Suc f'" by (cases f) auto
  with Nil show ?case by (simp add: forest_at_Nil opt_refines_def)
next
  case (Cons t ts)
  from Cons.prems(1) obtain a where
    a: "c = Some a" "tree_at h a t" "forest_at h (NextSibling (h a)) ts"
    by (auto simp: forest_at_Cons)
  from Cons.prems(2) obtain f' where
    f: "f = Suc f'" "fuel_for t \<le> f'" "fuel_for_list ts \<le> f'"
    by (cases f) auto
  note fld = tree_at_fields [OF a(2)]
  show ?case
  proof (cases "Type t = ElementNode \<and> Data t = g")
    case True
    with a(1) f(1) fld show ?thesis
      by (simp add: opt_refines_def addr_from_here)
  next
    case False
    have IH: "opt_refines (firstWithTag_scan_p f' h (NextSibling (h a)) g)
        (addr_from h (NextSibling (h a)) (Suc k)) (firstWithTag_scan ts (Suc k) g)"
      using Cons.IH [OF a(3) f(3)] .
    have shift: "map_option (addr_from h (Some a) k) (firstWithTag_scan ts (Suc k) g)
        = map_option (addr_from h (NextSibling (h a)) (Suc k)) (firstWithTag_scan ts (Suc k) g)"
    proof (cases "firstWithTag_scan ts (Suc k) g")
      case None
      then show ?thesis by simp
    next
      case (Some p)
      from firstWithTag_scan_head [OF this] obtain j where "p = [Suc k + j]" by blast
      with Some show ?thesis by (simp add: addr_from_next)
    qed
    have 1: "firstWithTag_scan_p f h c g = firstWithTag_scan_p f' h (NextSibling (h a)) g"
      using False a(1) f(1) fld by (auto)
    have 2: "firstWithTag_scan (t # ts) k g = firstWithTag_scan ts (Suc k) g"
      using False by auto
    show ?thesis unfolding 1 2 unfolding a(1) opt_refines_def shift
      using IH [unfolded opt_refines_def] .
  qed
qed

lemma firstWithTag_descend_refines:
  "forest_at h c cs \<Longrightarrow> fuel_for_list cs \<le> f \<Longrightarrow>
   (\<And>t a f. t \<in> set cs \<Longrightarrow> tree_at h a t \<Longrightarrow> fuel_for t \<le> f \<Longrightarrow>
      opt_refines (firstWithTag_p f h a g True) (addr_at h a) (firstWithTag t g True)) \<Longrightarrow>
   opt_refines (firstWithTag_descend_p f h c g) (addr_from h c k) (firstWithTag_descend cs k g)"
proof (induction cs arbitrary: c f k)
  case Nil
  then obtain f' where "f = Suc f'" by (cases f) auto
  with Nil show ?case by (simp add: forest_at_Nil opt_refines_def)
next
  case (Cons t ts)
  from Cons.prems(1) obtain a where
    a: "c = Some a" "tree_at h a t" "forest_at h (NextSibling (h a)) ts"
    by (auto simp: forest_at_Cons)
  from Cons.prems(2) obtain f' where
    f: "f = Suc f'" "fuel_for t \<le> f'" "fuel_for_list ts \<le> f'"
    by (cases f) auto
  have sub: "opt_refines (firstWithTag_p f' h a g True) (addr_at h a) (firstWithTag t g True)"
    using Cons.prems(3) [of t a f'] a(2) f(2) by simp
  have IH: "opt_refines (firstWithTag_descend_p f' h (NextSibling (h a)) g)
      (addr_from h (NextSibling (h a)) (Suc k)) (firstWithTag_descend ts (Suc k) g)"
  proof (rule Cons.IH [OF a(3) f(3)])
    fix t' a' f''
    assume "t' \<in> set ts" "tree_at h a' t'" "fuel_for t' \<le> f''"
    then show "opt_refines (firstWithTag_p f'' h a' g True) (addr_at h a') (firstWithTag t' g True)"
      using Cons.prems(3) [of t' a' f''] by simp
  qed
  have shift: "map_option (addr_from h (Some a) k) (firstWithTag_descend ts (Suc k) g)
      = map_option (addr_from h (NextSibling (h a)) (Suc k)) (firstWithTag_descend ts (Suc k) g)"
  proof (cases "firstWithTag_descend ts (Suc k) g")
    case None
    then show ?thesis by simp
  next
    case (Some p)
    from firstWithTag_descend_head [OF this] obtain j el where "p = (Suc k + j) # el" by blast
    with Some show ?thesis by (simp add: addr_from_next)
  qed
  have skip: "opt_refines (firstWithTag_descend_p f' h (NextSibling (h a)) g)
      (addr_from h (Some a) k) (firstWithTag_descend ts (Suc k) g)"
    unfolding opt_refines_def shift using IH [unfolded opt_refines_def] .
  show ?case
  proof (cases "firstWithTag t g True")
    case None
    with sub have "firstWithTag_p f' h a g True = Some None"
      by (simp add: opt_refines_None)
    then have 1: "firstWithTag_descend_p f h c g
        = firstWithTag_descend_p f' h (NextSibling (h a)) g"
      using a(1) f(1) by simp
    have 2: "firstWithTag_descend (t # ts) k g = firstWithTag_descend ts (Suc k) g"
      using None by simp
    from skip show ?thesis unfolding 1 2 unfolding a(1) .
  next
    case (Some el)
    from opt_refines_Some [OF sub [unfolded Some]] obtain y where
      y: "firstWithTag_p f' h a g True = Some (Some y)" "addr_at h a el = Some y"
      by blast
    have 1: "firstWithTag_descend_p f h c g = Some (Some y)"
      using y(1) a(1) f(1) by simp
    have 2: "firstWithTag_descend (t # ts) k g = Some (k # el)"
      using Some by simp
    show ?thesis unfolding 1 2 unfolding a(1) using y(2) by (simp add: opt_refines_def addr_from_here)
  qed
qed

lemma firstWithTag_refines:
  "tree_at h a t \<Longrightarrow> fuel_for t \<le> f \<Longrightarrow>
   opt_refines (firstWithTag_p f h a g rec) (addr_at h a) (firstWithTag t g rec)"
proof (induction t arbitrary: a f rec)
  case (Node ty d as cs)
  let ?fc = "FirstChild (h a)"
  from Node.prems(1) have fo: "forest_at h ?fc cs" by simp
  from Node.prems(2) obtain f' where f: "f = Suc f'" "fuel_for_list cs \<le> f'"
    by (cases f) auto
  have scan: "opt_refines (firstWithTag_scan_p f' h ?fc g) (addr_from h ?fc 0)
      (firstWithTag_scan cs 0 g)"
    using firstWithTag_scan_refines [OF fo f(2)] .
  have desc: "opt_refines (firstWithTag_descend_p f' h ?fc g) (addr_from h ?fc 0)
      (firstWithTag_descend cs 0 g)"
  proof (rule firstWithTag_descend_refines [OF fo f(2)])
    fix t a' f''
    assume "t \<in> set cs" "tree_at h a' t" "fuel_for t \<le> f''"
    then show "opt_refines (firstWithTag_p f'' h a' g True) (addr_at h a') (firstWithTag t g True)"
      using Node.IH by blast
  qed
  show ?case
  proof (cases "firstWithTag_scan cs 0 g")
    case (Some p)
    from firstWithTag_scan_head [OF this] obtain j where p: "p = [j]" by auto
    from opt_refines_Some [OF scan [unfolded Some]] obtain y where
      y: "firstWithTag_scan_p f' h ?fc g = Some (Some y)" "addr_from h ?fc 0 p = Some y"
      by blast
    have 1: "firstWithTag_p f h a g rec = Some (Some y)" using y(1) f(1) by simp
    have 2: "firstWithTag (Node ty d as cs) g rec = Some p" using Some by simp
    have 3: "addr_at h a p = Some y" using y(2) p by (simp add: addr_from_def)
    show ?thesis unfolding 1 2 using 3 by (simp add: opt_refines_def)
  next
    case None
    with scan have s: "firstWithTag_scan_p f' h ?fc g = Some None"
      by (simp add: opt_refines_None)
    show ?thesis
    proof (cases rec)
      case False
      have 1: "firstWithTag_p f h a g rec = Some None" using s f(1) False by simp
      have 2: "firstWithTag (Node ty d as cs) g rec = None" using None False by simp
      show ?thesis unfolding 1 2 by (simp add: opt_refines_def)
    next
      case True
      have 1: "firstWithTag_p f h a g rec = firstWithTag_descend_p f' h ?fc g"
        using s f(1) True by simp
      have 2: "firstWithTag (Node ty d as cs) g rec = firstWithTag_descend cs 0 g"
        using None True by simp
      have 3: "map_option (addr_at h a) (firstWithTag_descend cs 0 g)
          = map_option (addr_from h ?fc 0) (firstWithTag_descend cs 0 g)"
      proof (cases "firstWithTag_descend cs 0 g")
        case None
        then show ?thesis by simp
      next
        case (Some p)
        from firstWithTag_descend_head [OF this] obtain j el where "p = j # el" by auto
        with Some show ?thesis by (simp add: addr_from_def)
      qed
      show ?thesis unfolding 1 2 opt_refines_def 3 using desc [unfolded opt_refines_def] .
    qed
  qed
qed

subsection \<open>By class name, all\<close>

lemma allWithClassName_loop_head:
  "p \<in> set (allWithClassName_loop cs k cl) \<Longrightarrow> \<exists>j q. p = (k + j) # q"
proof (induction cs arbitrary: k)
  case Nil
  then show ?case by simp
next
  case (Cons t ts)
  from Cons.prems consider (below) "p \<in> (#) k ` set (allWithClassName t cl True)"
    | (later) "p \<in> set (allWithClassName_loop ts (Suc k) cl)"
    by auto
  then show ?case
  proof cases
    case below
    then obtain q where "p = (k + 0) # q" by auto
    then show ?thesis by blast
  next
    case later
    from Cons.IH [OF this] obtain j q where "p = (Suc k + j) # q" by blast
    then have "p = (k + Suc j) # q" by simp
    then show ?thesis by blast
  qed
qed

lemma allWithClassName_loop_refines:
  "forest_at h c cs \<Longrightarrow> fuel_for_list cs \<le> f \<Longrightarrow>
   (\<And>t a f. t \<in> set cs \<Longrightarrow> tree_at h a t \<Longrightarrow> fuel_for t \<le> f \<Longrightarrow>
      list_refines (allWithClassName_p f h a cl True) (addr_at h a)
        (allWithClassName t cl True)) \<Longrightarrow>
   \<exists>xs. allWithClassName_loop_p f h c cl res = Some (res @ xs)
      \<and> map Some xs = map (addr_from h c k) (allWithClassName_loop cs k cl)"
proof (induction cs arbitrary: c f k res)
  case Nil
  then obtain f' where "f = Suc f'" by (cases f) auto
  with Nil show ?case by (simp add: forest_at_Nil)
next
  case (Cons t ts)
  from Cons.prems(1) obtain a where
    a: "c = Some a" "tree_at h a t" "forest_at h (NextSibling (h a)) ts"
    by (auto simp: forest_at_Cons)
  from Cons.prems(2) obtain f' where
    f: "f = Suc f'" "fuel_for t \<le> f'" "fuel_for_list ts \<le> f'"
    by (cases f) auto
  let ?nx = "NextSibling (h a)"
  have IH: "\<exists>xs. allWithClassName_loop_p f' h ?nx cl res' = Some (res' @ xs)
      \<and> map Some xs = map (addr_from h ?nx (Suc k)) (allWithClassName_loop ts (Suc k) cl)"
    for res'
  proof (rule Cons.IH [OF a(3) f(3)])
    fix t' a' f''
    assume "t' \<in> set ts" "tree_at h a' t'" "fuel_for t' \<le> f''"
    then show "list_refines (allWithClassName_p f'' h a' cl True) (addr_at h a')
        (allWithClassName t' cl True)"
      using Cons.prems(3) [of t' a' f''] by simp
  qed
  have shift: "map (addr_from h (Some a) k) (allWithClassName_loop ts (Suc k) cl)
      = map (addr_from h ?nx (Suc k)) (allWithClassName_loop ts (Suc k) cl)"
  proof (rule map_cong [OF refl])
    fix p
    assume "p \<in> set (allWithClassName_loop ts (Suc k) cl)"
    from allWithClassName_loop_head [OF this] obtain j q where "p = (Suc k + j) # q" by blast
    then show "addr_from h (Some a) k p = addr_from h ?nx (Suc k) p"
      by (simp add: addr_from_next)
  qed
  have below: "map (addr_from h (Some a) k) (map ((#) k) ps) = map (addr_at h a) ps" for ps
    by (simp add: addr_from_here comp_def)
  from Cons.prems(3) [of t a f'] a(2) f(2) obtain s where
    s: "allWithClassName_p f' h a cl True = Some s"
       "map Some s = map (addr_at h a) (allWithClassName t cl True)"
    by (auto simp: list_refines_def split: option.splits)
  from IH [of "res @ s"] obtain xs where
    xs: "allWithClassName_loop_p f' h ?nx cl (res @ s) = Some ((res @ s) @ xs)"
        "map Some xs = map (addr_from h ?nx (Suc k)) (allWithClassName_loop ts (Suc k) cl)"
    by blast
  have run: "allWithClassName_loop_p f h c cl res = Some (res @ (s @ xs))"
    using a(1) f(1) s(1) xs(1) by simp
  have "map Some (s @ xs) = map (addr_from h c k) (allWithClassName_loop (t # ts) k cl)"
    using s(2) xs(2) shift a(1) by (simp add: below addr_from_here)
  with run show ?case by blast
qed

lemma allWithClassName_refines:
  "tree_at h a t \<Longrightarrow> fuel_for t \<le> f \<Longrightarrow>
   list_refines (allWithClassName_p f h a cl rec) (addr_at h a) (allWithClassName t cl rec)"
proof (induction t arbitrary: a f rec)
  case (Node ty d as cs)
  let ?fc = "FirstChild (h a)"
  let ?n = "Node ty d as cs"
  from Node.prems(1) have fo: "forest_at h ?fc cs" by simp
  from Node.prems(1) have self: "HasClass_loop (node_Attr (h a)) cl = HasClass ?n cl"
    by (simp add: HasClass_def)
  from Node.prems(2) obtain f' where f: "f = Suc f'" "fuel_for_list cs \<le> f'"
    by (cases f) auto
  have loop: "\<exists>xs. allWithClassName_loop_p f' h ?fc cl res = Some (res @ xs)
      \<and> map Some xs = map (addr_from h ?fc 0) (allWithClassName_loop cs 0 cl)" for res
  proof (rule allWithClassName_loop_refines [OF fo f(2)])
    fix t a' f''
    assume "t \<in> set cs" "tree_at h a' t" "fuel_for t \<le> f''"
    then show "list_refines (allWithClassName_p f'' h a' cl True) (addr_at h a')
        (allWithClassName t cl True)"
      using Node.IH by blast
  qed
  have conv: "map (addr_at h a) (allWithClassName_loop cs 0 cl)
      = map (addr_from h ?fc 0) (allWithClassName_loop cs 0 cl)"
  proof (rule map_cong [OF refl])
    fix p
    assume "p \<in> set (allWithClassName_loop cs 0 cl)"
    from allWithClassName_loop_head [OF this] have "p \<noteq> []" by auto
    then show "addr_at h a p = addr_from h ?fc 0 p" by (rule addr_at_nonempty)
  qed
  show ?case
  proof (cases "HasClass ?n cl")
    case True
    from loop [of "[a]"] obtain xs where
      xs: "allWithClassName_loop_p f' h ?fc cl [a] = Some ([a] @ xs)"
          "map Some xs = map (addr_from h ?fc 0) (allWithClassName_loop cs 0 cl)"
      by blast
    have 1: "allWithClassName_p f h a cl rec = Some (if rec then a # xs else [a])"
      using f(1) self True xs(1) by (simp add: Let_def)
    have 2: "allWithClassName ?n cl rec
        = (if rec then [] # allWithClassName_loop cs 0 cl else [[]])"
      using True by (simp add: Let_def)
    show ?thesis unfolding 1 2 using xs(2) conv by (simp add: list_refines_def)
  next
    case False
    from loop [of "[]"] obtain xs where
      xs: "allWithClassName_loop_p f' h ?fc cl [] = Some ([] @ xs)"
          "map Some xs = map (addr_from h ?fc 0) (allWithClassName_loop cs 0 cl)"
      by blast
    have 1: "allWithClassName_p f h a cl rec = Some (if rec then xs else [])"
      using f(1) self False xs(1) by (simp add: Let_def)
    have 2: "allWithClassName ?n cl rec = (if rec then allWithClassName_loop cs 0 cl else [])"
      using False by (simp add: Let_def)
    show ?thesis unfolding 1 2 using xs(2) conv by (simp add: list_refines_def)
  qed
qed

subsection \<open>The dispatchers\<close>

lemma SelectFirst_refines:
  assumes "tree_at h a t" and "fuel_for t \<le> f"
  shows "opt_refines (SelectFirst_p f h a s) (addr_at h a) (SelectFirst t s)"
  using firstWithId_refines [OF assms, of "Id s" "Recursive s"]
    firstWithClassName_refines [OF assms, of "ClassName s" "Recursive s"]
    firstWithTag_refines [OF assms, of "Tag s" "Recursive s"]
  by (simp add: SelectFirst_def SelectFirst_p_def opt_refines_def)

lemma SelectAll_refines:
  assumes "tree_at h a t" and "fuel_for t \<le> f"
  shows "slice_refines (SelectAll_p f h a s) (addr_at h a) (SelectAll t s)"
proof -
  have lift: "map (map_option Some) (map Some xs) = map (map_option (addr_at h a)) (map Some ps)"
    if "map Some xs = map (addr_at h a) ps" for xs ps
  proof -
    have "map (map_option Some) (map Some xs) = map Some (map Some xs)" by simp
    also have "\<dots> = map Some (map (addr_at h a) ps)" using that by simp
    also have "\<dots> = map (map_option (addr_at h a)) (map Some ps)" by simp
    finally show ?thesis .
  qed
  consider (id) "Id s \<noteq> []" | (cls) "Id s = []" "ClassName s \<noteq> []"
    | (tag) "Id s = []" "ClassName s = []" "Tag s \<noteq> []"
    | (none) "Id s = []" "ClassName s = []" "Tag s = []"
    by blast
  then show ?thesis
  proof cases
    case id
    show ?thesis
    proof (cases "firstWithId t (Id s) (Recursive s)")
      case None
      with firstWithId_refines [OF assms, of "Id s" "Recursive s"]
      have "firstWithId_p f h a (Id s) (Recursive s) = Some None"
        by (simp add: opt_refines_None)
      with id None show ?thesis
        by (simp add: SelectAll_def SelectAll_p_def slice_refines_def)
    next
      case (Some p)
      from opt_refines_Some [OF firstWithId_refines [OF assms, of "Id s" "Recursive s", unfolded Some]]
      obtain x where "firstWithId_p f h a (Id s) (Recursive s) = Some (Some x)" by blast
      with id Some show ?thesis
        by (simp add: SelectAll_def SelectAll_p_def slice_refines_def)
    qed
  next
    case cls
    from allWithClassName_refines [OF assms, of "ClassName s" "Recursive s"] obtain xs where
      xs: "allWithClassName_p f h a (ClassName s) (Recursive s) = Some xs"
          "map Some xs = map (addr_at h a) (allWithClassName t (ClassName s) (Recursive s))"
      by (auto simp: list_refines_def split: option.splits)
    from cls xs(1) lift [OF xs(2)] show ?thesis
      by (simp add: SelectAll_def SelectAll_p_def slice_refines_def)
  next
    case tag
    from allWithTag_refines [OF assms, of "Tag s" "Recursive s"] obtain xs where
      xs: "allWithTag_p f h a (Tag s) (Recursive s) = Some xs"
          "map Some xs = map (addr_at h a) (allWithTag t (Tag s) (Recursive s))"
      by (auto simp: list_refines_def split: option.splits)
    from tag xs(1) lift [OF xs(2)] show ?thesis
      by (simp add: SelectAll_def SelectAll_p_def slice_refines_def)
  next
    case none
    then show ?thesis by (simp add: SelectAll_def SelectAll_p_def slice_refines_def)
  qed
qed

text \<open>
  On the linked example the by-id search returns the address of the element with the
  id, which is the address of the path the search over the tree returns.
\<close>

lemma linked_example_firstWithId:
  "firstWithId linked_example_tree ''x'' True = Some [0]
   \<and> addr_at linked_example 0 [0] = Some 1
   \<and> firstWithId_p (fuel_for linked_example_tree) linked_example 0 ''x'' True = Some (Some 1)"
proof -
  have 1: "tree_at linked_example 0 linked_example_tree"
    by (simp add: linked_example_def linked_example_tree_def)
  have 2: "firstWithId linked_example_tree ''x'' True = Some [0]"
    by (simp add: linked_example_tree_def Attr_def)
  have 3: "addr_at linked_example 0 [0] = Some 1"
    by (simp add: linked_example_def)
  from opt_refines_Some [OF firstWithId_refines [OF 1 order_refl, of "''x''" True, unfolded 2]] 3
  have "firstWithId_p (fuel_for linked_example_tree) linked_example 0 ''x'' True = Some (Some 1)"
    by auto
  with 2 3 show ?thesis by simp
qed


end
